theory Spec2Isabelle
  imports Main
begin

section \<open>Minishell: tokenizer, operator scanner, splitter, orchestrator, dispatcher\<close>

text \<open>
  A shallow embedding of \<^verbatim>\<open>tokens.c\<close> and \<^verbatim>\<open>shell.c\<close>.
  A \<^verbatim>\<open>char *\<close> is the list of bytes stored from the pointer on (the terminating NUL
  and whatever the buffer holds behind it included); a NUL-terminated \<^verbatim>\<open>char **\<close>
  handed to a function is the list of its strings; the pointer arrays a function writes
  to are lists of slots, \<open>None\<close> for \<^verbatim>\<open>NULL\<close>. Reads and writes outside a buffer, and
  execution that ends the process, are values of the model.
\<close>

subsection \<open>Constants and characters\<close>

definition MAX_CHAR :: nat where
  \<comment> \<open>\<^verbatim>\<open>#define MAX_CHAR 256\<close> (tokens.h)\<close>
  "MAX_CHAR = 256"

definition NUL :: char where
  "NUL = CHR 0x00"

definition DQUOTE :: char where
  \<comment> \<open>the double-quote character\<close>
  "DQUOTE = CHR 0x22"

definition BACKSLASH :: char where
  "BACKSLASH = CHR 0x5C"

definition NEWLINE :: char where
  "NEWLINE = CHR 0x0A"

text \<open>The C string in a buffer: the bytes before the first NUL.\<close>

definition cstring :: "char list \<Rightarrow> string" where
  "cstring buf = takeWhile (\<lambda>c. c \<noteq> NUL) buf"

subsection \<open>Tokenizer (tokens.c)\<close>

datatype error =
    OutOfBounds      \<comment> \<open>a read or write outside the buffer\<close>
  | NullPointer      \<comment> \<open>a \<^verbatim>\<open>NULL\<close> pointer handed to a function that reads through it\<close>
  | Exited nat       \<comment> \<open>\<^verbatim>\<open>exit(status)\<close>\<close>

text \<open>
  Modelled from the spec: the vector type \<^verbatim>\<open>vect_t\<close> of \<^verbatim>\<open>vect.h\<close> (not among the
  sources) is the ordered, growable sequence of tokens; \<^verbatim>\<open>vect_new\<close> is the empty
  sequence and \<^verbatim>\<open>vect_add\<close> appends a copy of the string.
\<close>

type_synonym vect = "string list"

definition vect_new :: vect where
  "vect_new = []"

definition vect_add :: "vect \<Rightarrow> string \<Rightarrow> vect" where
  "vect_add vector s = vector @ [s]"

definition special_char :: "char \<Rightarrow> bool" where
  "special_char ch \<longleftrightarrow>
     ch = CHR ''<'' \<or> ch = CHR ''>'' \<or> ch = CHR '';'' \<or> ch = CHR ''('' \<or> ch = CHR '')''
     \<or> ch = CHR ''|''"

text \<open>
  The token under construction is the C string held in \<^verbatim>\<open>result[MAX_CHAR]\<close>, modelled
  by its characters. \<^verbatim>\<open>add_and_reset\<close> adds it to the vector when it is not empty and
  clears the buffer.
\<close>

definition add_and_reset :: "vect \<Rightarrow> string \<Rightarrow> vect \<times> string" where
  "add_and_reset vector ch =
     (if length ch \<noteq> 0 then (vect_add vector ch, []) else (vector, ch))"

text \<open>
  \<^verbatim>\<open>strncat(result, &c, 1)\<close>: appends the character (nothing when it is NUL) and a
  terminator; the write leaves \<^verbatim>\<open>result\<close> when the string already has
  \<open>MAX_CHAR - 1\<close> characters.
\<close>

definition strncat1 :: "string \<Rightarrow> char \<Rightarrow> error + string" where
  "strncat1 result c =
     (if c = NUL then Inr result
      else if length result + 1 < MAX_CHAR then Inr (result @ [c])
      else Inl OutOfBounds)"

function handle_quotes :: "char list \<Rightarrow> string \<Rightarrow> nat \<Rightarrow> error + (string \<times> nat)" where
  "handle_quotes curr_string result i =
     (if i + 1 < length curr_string then
        (if curr_string ! (i + 1) \<noteq> NUL then
           (if curr_string ! (i + 1) = NUL then Inl (Exited 1)
            else if curr_string ! (i + 1) \<noteq> DQUOTE then
              (case strncat1 result (curr_string ! (i + 1)) of
                 Inl e \<Rightarrow> Inl e
               | Inr r \<Rightarrow> handle_quotes curr_string r (i + 1))
            else Inr (result, i + 2))
         else Inr (result, i + 2))
      else Inl OutOfBounds)"
  by pat_completeness auto
termination
  by (relation "measure (\<lambda>(cs, r, i). length cs - i)") auto

declare handle_quotes.simps [simp del]

lemma handle_quotes_advances:
  "handle_quotes curr_string result i = Inr (r, i') \<Longrightarrow> i + 2 \<le> i'"
proof (induction curr_string result i rule: handle_quotes.induct)
  case (1 curr_string result i)
  from "1.prems" have
    "Suc i < length curr_string \<and>
       (curr_string ! Suc i = NUL \<and> i' = i + 2
        \<or> curr_string ! Suc i = DQUOTE \<and> i' = i + 2
        \<or> (curr_string ! Suc i \<noteq> NUL \<and> curr_string ! Suc i \<noteq> DQUOTE
           \<and> (\<exists>x. strncat1 result (curr_string ! Suc i) = Inr x
                  \<and> handle_quotes curr_string x (Suc i) = Inr (r, i'))))"
    by (subst (asm) handle_quotes.simps) (auto split: if_splits sum.splits)
  then show ?case
    using "1.IH" by fastforce
qed

text \<open>
  One iteration of the loop of \<^verbatim>\<open>tokenize\<close>, entered with \<^verbatim>\<open>curr_string[i]\<close> inside the
  buffer and not NUL: the vector, the token buffer and the index as it leaves them.
\<close>

definition tokenize_step ::
  "char list \<Rightarrow> vect \<Rightarrow> string \<Rightarrow> nat \<Rightarrow> error + (vect \<times> string \<times> nat)" where
  "tokenize_step curr_string vector result i =
     (if curr_string ! i = CHR '' '' then
        (case add_and_reset vector result of (v, r) \<Rightarrow> Inr (v, r, i + 1))
      else if curr_string ! i = BACKSLASH \<and> i + 1 < MAX_CHAR
              \<and> i + 1 < length curr_string
              \<and> curr_string ! (i + 1) \<noteq> NUL \<and> curr_string ! (i + 1) = CHR ''t'' then
        (case add_and_reset vector result of (v, r) \<Rightarrow> Inr (v, r, i + 2))
      else if curr_string ! i = BACKSLASH \<and> i + 1 < MAX_CHAR
              \<and> \<not> i + 1 < length curr_string then Inl OutOfBounds
      else if curr_string ! i = DQUOTE then
        (case add_and_reset vector result of
           (v, r) \<Rightarrow>
             (case handle_quotes curr_string r i of
                Inl e \<Rightarrow> Inl e
              | Inr (r', i') \<Rightarrow> Inr (v, r', i')))
      else if special_char (curr_string ! i) then
        (case add_and_reset vector result of
           (v, r) \<Rightarrow>
             (case strncat1 r (curr_string ! i) of
                Inl e \<Rightarrow> Inl e
              | Inr r' \<Rightarrow>
                  (case add_and_reset v r' of (v', r'') \<Rightarrow> Inr (v', r'', i + 1))))
      else
        (case strncat1 result (curr_string ! i) of
           Inl e \<Rightarrow> Inl e
         | Inr r \<Rightarrow> Inr (vector, r, i + 1)))"

lemma tokenize_step_advances:
  "tokenize_step curr_string vector result i = Inr (v, r, i') \<Longrightarrow> i < i'"
  by (auto simp: tokenize_step_def split: if_splits prod.splits sum.splits
      dest: handle_quotes_advances)

text \<open>The loop of \<^verbatim>\<open>tokenize\<close> and the flush of the last token behind it.\<close>

function tokenize_loop :: "char list \<Rightarrow> vect \<Rightarrow> string \<Rightarrow> nat \<Rightarrow> error + vect" where
  "tokenize_loop curr_string vector result i =
     (if i < MAX_CHAR then
        (if i < length curr_string then
           (if curr_string ! i \<noteq> NUL then
              (case tokenize_step curr_string vector result i of
                 Inl e \<Rightarrow> Inl e
               | Inr (v, r, i') \<Rightarrow> tokenize_loop curr_string v r i')
            else Inr (fst (add_and_reset vector result)))
         else Inl OutOfBounds)
      else Inr (fst (add_and_reset vector result)))"
  by pat_completeness auto
termination
  by (relation "measure (\<lambda>(cs, v, r, i). MAX_CHAR - i)")
     (auto dest: tokenize_step_advances)

declare tokenize_loop.simps [simp del]

definition tokenize :: "char list \<Rightarrow> error + vect" where
  "tokenize curr_string = tokenize_loop curr_string vect_new [] 0"

text \<open>A state of the loop in which no stored token and no pending character is a space.\<close>

definition spaceless :: "vect \<Rightarrow> string \<Rightarrow> bool" where
  "spaceless vector result \<longleftrightarrow>
     (\<forall>t\<in>set vector. CHR '' '' \<notin> set t) \<and> CHR '' '' \<notin> set result"

text \<open>
  The shape of a token: \<open>separator_free u\<close> says that \<open>u\<close> holds no space and no
  backslash directly followed by \<open>t\<close>; \<open>quoted_run curr_string q\<close> says that \<open>q\<close> is what
  \<^verbatim>\<open>handle_quotes\<close> collects at some double quote of the buffer.
\<close>

fun separator_free :: "string \<Rightarrow> bool" where
  "separator_free [] = True"
| "separator_free [c] = (c \<noteq> CHR '' '')"
| "separator_free (c # d # cs) =
     (c \<noteq> CHR '' '' \<and> \<not> (c = BACKSLASH \<and> d = CHR ''t'') \<and> separator_free (d # cs))"

definition quoted_run :: "char list \<Rightarrow> string \<Rightarrow> bool" where
  "quoted_run curr_string q \<longleftrightarrow>
     (\<exists>i<length curr_string. curr_string ! i = DQUOTE
        \<and> (case handle_quotes curr_string [] i of Inl e \<Rightarrow> False | Inr (r, i') \<Rightarrow> r = q))"

definition token_shape :: "char list \<Rightarrow> string \<Rightarrow> bool" where
  "token_shape curr_string t \<longleftrightarrow>
     (\<exists>q u. t = q @ u \<and> (q = [] \<or> quoted_run curr_string q) \<and> separator_free u)"


subsection \<open>Operator scanner and splitter (shell.c)\<close>

text \<open>\<^verbatim>\<open>size\<close>: the number of entries before the terminating \<^verbatim>\<open>NULL\<close>.\<close>

definition size_tokens :: "string list \<Rightarrow> nat" where
  "size_tokens tokens = length tokens"

text \<open>
  \<^verbatim>\<open>has_special\<close>: the loop over the indices below \<^verbatim>\<open>size(tokens)\<close> returns at the
  first token equal to one of the four literals.
\<close>

fun has_special :: "string list \<Rightarrow> int" where
  "has_special [] = 0"
| "has_special (t # ts) =
     (if t = '';'' then 1
      else if t = ''<'' then 2
      else if t = ''>'' then 3
      else if t = ''|'' then 4
      else has_special ts)"

fun num_pipes :: "string list \<Rightarrow> int" where
  "num_pipes [] = 0"
| "num_pipes (t # ts) = (if t = ''|'' then 1 + num_pipes ts else num_pipes ts)"

text \<open>
  The arrays \<^verbatim>\<open>left_tokens\<close> and \<^verbatim>\<open>right_tokens\<close> that \<^verbatim>\<open>split\<close> writes to: one slot per
  pointer, holding what the caller's storage held before the call. \<^verbatim>\<open>split\<close> stores the
  tokens and nothing else: it writes no terminating \<^verbatim>\<open>NULL\<close>.
\<close>

type_synonym slots = "string option list"

function split_left :: "string \<Rightarrow> string list \<Rightarrow> slots \<Rightarrow> nat \<Rightarrow> error + (slots \<times> nat)" where
  "split_left special_token tokens left_tokens i =
     (if i < length tokens then
        (if special_token \<noteq> tokens ! i then
           (if i < length left_tokens then
              split_left special_token tokens (left_tokens[i := Some (tokens ! i)]) (i + 1)
            else Inl OutOfBounds)
         else Inr (left_tokens, i))
      else Inl NullPointer)"
  by pat_completeness auto
termination
  by (relation "measure (\<lambda>(s, ts, l, i). length ts - i)") auto

declare split_left.simps [simp del]

function split_right :: "string list \<Rightarrow> slots \<Rightarrow> nat \<Rightarrow> nat \<Rightarrow> nat \<Rightarrow> error + slots" where
  "split_right tokens right_tokens len j i =
     (if i < len then
        (if i < length tokens \<and> j < length right_tokens then
           split_right tokens (right_tokens[j := Some (tokens ! i)]) len (j + 1) (i + 1)
         else Inl OutOfBounds)
      else Inr right_tokens)"
  by pat_completeness auto
termination
  by (relation "measure (\<lambda>(ts, r, len, j, i). len - i)") auto

declare split_right.simps [simp del]

definition split :: "string \<Rightarrow> string list \<Rightarrow> slots \<Rightarrow> slots \<Rightarrow> error + (slots \<times> slots)" where
  "split special_token tokens left_tokens right_tokens =
     (case split_left special_token tokens left_tokens 0 of
        Inl e \<Rightarrow> Inl e
      | Inr (l, i) \<Rightarrow>
          (case split_right tokens right_tokens (size_tokens tokens) 0 (i + 1) of
             Inl e \<Rightarrow> Inl e
           | Inr r \<Rightarrow> Inr (l, r)))"

text \<open>
  What a consumer of a \<^verbatim>\<open>char **\<close> reads from an array: the entries before the first
  \<^verbatim>\<open>NULL\<close>; nothing when the array holds no \<^verbatim>\<open>NULL\<close> (the read runs off its end).
\<close>

definition tokens_of :: "slots \<Rightarrow> string list option" where
  "tokens_of arr =
     (if None \<in> set arr then Some (map the (takeWhile (\<lambda>x. x \<noteq> None) arr)) else None)"

text \<open>What \<^verbatim>\<open>split\<close> stores, slot by slot: the tokens, and behind them what was there before.\<close>

lemma split_left_eq:
  "special \<in> set (drop i tokens) \<Longrightarrow>
   i + length (takeWhile (\<lambda>t. t \<noteq> special) (drop i tokens)) \<le> length left \<Longrightarrow>
   split_left special tokens left i =
     Inr (take i left @ map Some (takeWhile (\<lambda>t. t \<noteq> special) (drop i tokens))
            @ drop (i + length (takeWhile (\<lambda>t. t \<noteq> special) (drop i tokens))) left,
          i + length (takeWhile (\<lambda>t. t \<noteq> special) (drop i tokens)))"
proof (induction special tokens left i rule: split_left.induct)
  case (1 special tokens left i)
  from "1.prems"(1) have il: "i < length tokens"
    by (cases "i < length tokens") auto
  then have d: "drop i tokens = tokens ! i # drop (Suc i) tokens"
    by (simp add: Cons_nth_drop_Suc)
  show ?case
  proof (cases "special = tokens ! i")
    case True
    then show ?thesis
      using il d by (subst split_left.simps) simp
  next
    case False
    with "1.prems" d have a: "special \<in> set (drop (Suc i) tokens)" by auto
    from False "1.prems"(2) d have b: "i < length left" by auto
    from False "1.prems"(2) d have c:
      "Suc i + length (takeWhile (\<lambda>t. t \<noteq> special) (drop (Suc i) tokens)) \<le> length (left[i := Some (tokens ! i)])"
      by auto
    have ih: "split_left special tokens (left[i := Some (tokens ! i)]) (i + 1) = 
       Inr (take (i+1) (left[i := Some (tokens ! i)]) @ map Some (takeWhile (\<lambda>t. t \<noteq> special) (drop (i+1) tokens))
            @ drop (i + 1 + length (takeWhile (\<lambda>t. t \<noteq> special) (drop (i+1) tokens))) (left[i := Some (tokens ! i)]),
          i + 1 + length (takeWhile (\<lambda>t. t \<noteq> special) (drop (i+1) tokens)))"
      using "1.IH"[OF il False b] a c by simp
    have t: "take (Suc i) (left[i := Some (tokens ! i)]) = take i left @ [Some (tokens ! i)]"
      using b by (simp add: take_Suc_conv_app_nth)
    show ?thesis
      using il False b d ih t by (subst split_left.simps) simp
  qed
qed


lemma split_right_eq:
  "len \<le> length tokens \<Longrightarrow> j + (len - i) \<le> length right \<Longrightarrow>
   split_right tokens right len j i =
     Inr (take j right @ map Some (take (len - i) (drop i tokens)) @ drop (j + (len - i)) right)"
proof (induction tokens right len j i rule: split_right.induct)
  case (1 tokens right len j i)
  show ?case
  proof (cases "i < len")
    case False
    then show ?thesis
      by (subst split_right.simps) simp
  next
    case True
    with "1.prems" have il: "i < length tokens" and jl: "j < length right" by auto
    have ih: "split_right tokens (right[j := Some (tokens ! i)]) len (j + 1) (i + 1) =
       Inr (take (j + 1) (right[j := Some (tokens ! i)])
            @ map Some (take (len - (i + 1)) (drop (i + 1) tokens))
            @ drop (j + 1 + (len - (i + 1))) (right[j := Some (tokens ! i)]))"
      using "1.IH"[OF True] il jl "1.prems" True by simp
    have t: "take (Suc j) (right[j := Some (tokens ! i)]) = take j right @ [Some (tokens ! i)]"
      using jl by (simp add: take_Suc_conv_app_nth)
    have d: "take (len - i) (drop i tokens) = tokens ! i # take (len - Suc i) (drop (Suc i) tokens)"
      using True il by (metis Cons_nth_drop_Suc Suc_diff_Suc take_Suc_Cons)
    have e: "j + 1 + (len - (i + 1)) = j + (len - i)"
      using True by simp
    show ?thesis
      using True il jl ih t d e by (subst split_right.simps) simp
  qed
qed

lemma split_eq:
  assumes "special \<in> set tokens"
    and "length (takeWhile (\<lambda>t. t \<noteq> special) tokens) \<le> length left"
    and "length (tl (dropWhile (\<lambda>t. t \<noteq> special) tokens)) \<le> length right"
  shows "split special tokens left right =
     Inr (map Some (takeWhile (\<lambda>t. t \<noteq> special) tokens)
            @ drop (length (takeWhile (\<lambda>t. t \<noteq> special) tokens)) left,
          map Some (tl (dropWhile (\<lambda>t. t \<noteq> special) tokens))
            @ drop (length (tl (dropWhile (\<lambda>t. t \<noteq> special) tokens))) right)"
proof -
  let ?k = "length (takeWhile (\<lambda>t. t \<noteq> special) tokens)"
  have l: "split_left special tokens left 0 =
      Inr (map Some (takeWhile (\<lambda>t. t \<noteq> special) tokens) @ drop ?k left, ?k)"
    using split_left_eq[of special 0 tokens left] assms by simp
  have dw: "dropWhile (\<lambda>t. t \<noteq> special) tokens = drop ?k tokens"
    by (simp add: dropWhile_eq_drop)
  have kl: "?k < length tokens"
    using assms(1) length_takeWhile_le[of "\<lambda>t. t \<noteq> special" tokens]
      takeWhile_eq_all_conv[of "\<lambda>t. t \<noteq> special" tokens]
    by (metis (mono_tags, lifting) le_neq_implies_less length_takeWhile_le takeWhile_eq_take take_all_iff order_refl)
  have tl: "tl (dropWhile (\<lambda>t. t \<noteq> special) tokens) = drop (Suc ?k) tokens"
    by (simp add: dw drop_Suc tl_drop)
  have r: "split_right tokens right (length tokens) 0 (Suc ?k) =
      Inr (map Some (drop (Suc ?k) tokens) @ drop (length tokens - Suc ?k) right)"
    using split_right_eq[of "length tokens" tokens 0 "Suc ?k" right] assms(3) tl by simp
  show ?thesis
    unfolding split_def size_tokens_def using l r tl by simp
qed

lemma split_left_Inr_D:
  "split_left special tokens left i = Inr (l, k) \<Longrightarrow> i \<le> length left \<Longrightarrow>
   special \<in> set (drop i tokens)
   \<and> i + length (takeWhile (\<lambda>t. t \<noteq> special) (drop i tokens)) \<le> length left"
proof (induction special tokens left i rule: split_left.induct)
  case (1 special tokens left i)
  from "1.prems"(1) have il: "i < length tokens"
    by (subst (asm) split_left.simps) (simp split: if_splits)
  then have d: "drop i tokens = tokens ! i # drop (Suc i) tokens"
    by (simp add: Cons_nth_drop_Suc)
  show ?case
  proof (cases "special = tokens ! i")
    case True
    then show ?thesis using d "1.prems"(2) by simp
  next
    case False
    from "1.prems"(1) il False have b: "i < length left"
      by (subst (asm) split_left.simps) (simp split: if_splits)
    from "1.prems"(1) il False b
    have c: "split_left special tokens (left[i := Some (tokens ! i)]) (i + 1) = Inr (l, k)"
      by (subst (asm) split_left.simps) simp
    have "special \<in> set (drop (i + 1) tokens)
      \<and> i + 1 + length (takeWhile (\<lambda>t. t \<noteq> special) (drop (i + 1) tokens))
          \<le> length (left[i := Some (tokens ! i)])"
      using "1.IH"[OF il False b c] b by simp
    then show ?thesis using d False by simp
  qed
qed

lemma split_right_Inr_D:
  "split_right tokens right len j i = Inr r \<Longrightarrow> j \<le> length right \<Longrightarrow>
   j + (len - i) \<le> length right"
proof (induction tokens right len j i rule: split_right.induct)
  case (1 tokens right len j i)
  show ?case
  proof (cases "i < len")
    case False
    then show ?thesis using "1.prems"(2) by simp
  next
    case True
    from "1.prems"(1) True have b: "i < length tokens \<and> j < length right"
      by (subst (asm) split_right.simps) (simp split: if_splits)
    from "1.prems"(1) True b
    have c: "split_right tokens (right[j := Some (tokens ! i)]) len (j + 1) (i + 1) = Inr r"
      by (subst (asm) split_right.simps) simp
    have "j + 1 + (len - (i + 1)) \<le> length (right[j := Some (tokens ! i)])"
      using "1.IH"[OF True b c] b by simp
    then show ?thesis using True by simp
  qed
qed

lemma split_Inr_D:
  assumes "split special tokens left right = Inr (l, r)"
  shows "special \<in> set tokens
    \<and> length (takeWhile (\<lambda>t. t \<noteq> special) tokens) \<le> length left
    \<and> length (tl (dropWhile (\<lambda>t. t \<noteq> special) tokens)) \<le> length right"
proof -
  from assms obtain l' k where
    a: "split_left special tokens left 0 = Inr (l', k)"
    by (auto simp: split_def split: sum.splits)
  from a assms have
    b: "split_right tokens right (length tokens) 0 (k + 1) = Inr r"
    by (auto simp: split_def size_tokens_def split: sum.splits)
  from split_left_Inr_D[OF a] have
    c: "special \<in> set tokens"
      "length (takeWhile (\<lambda>t. t \<noteq> special) tokens) \<le> length left"
    by simp_all
  from split_left_eq[of special 0 tokens left] c a have
    k: "k = length (takeWhile (\<lambda>t. t \<noteq> special) tokens)"
    by simp
  have "length (tl (dropWhile (\<lambda>t. t \<noteq> special) tokens)) = length tokens - (k + 1)"
    by (simp add: k dropWhile_eq_drop)
  with split_right_Inr_D[OF b] c show ?thesis by simp
qed

lemma takeWhile_Some_prefix:
  "map the (takeWhile (\<lambda>x. x \<noteq> None) (map Some xs @ None # rest)) = xs"
  by (induction xs) simp_all

lemma tokens_of_terminated:
  "tokens_of (map Some xs @ None # rest) = Some xs"
  unfolding tokens_of_def using takeWhile_Some_prefix[of xs rest] by simp

lemma tokens_of_filled:
  "tokens_of (map Some xs @ replicate n None) = (if n = 0 then None else Some xs)"
proof (cases n)
  case 0
  then show ?thesis by (auto simp: tokens_of_def)
next
  case (Suc m)
  then show ?thesis using tokens_of_terminated[of xs "replicate m None"] by simp
qed

subsection \<open>Processes\<close>

text \<open>
  What a process does from a point of the program on, as a tree of its system calls.
  \<open>Fork c p\<close> is \<^verbatim>\<open>fork()\<close>: the child goes on as \<open>c\<close>, the calling process as \<open>p\<close>.
  \<open>Execvp file argv k\<close> replaces the process image when it succeeds; \<open>k\<close> is what the
  process does when the call fails. \<open>Wait k\<close> is \<^verbatim>\<open>wait(NULL)\<close>, which returns when any
  one child of the process has ended. \<open>Return x\<close> is the return of the modelled function
  with value \<open>x\<close>, in whichever process reaches it. \<open>Exit n\<close> is \<^verbatim>\<open>exit(n)\<close>, \<open>Abort\<close> a
  failed \<^verbatim>\<open>assert\<close>, and \<open>Fault\<close> a read or write outside a buffer or through \<^verbatim>\<open>NULL\<close>.
\<close>

datatype fd = Fd nat | ReadEnd | WriteEnd

datatype oflag = ReadOnly | WriteCreateTruncate nat

datatype 'a io =
    Return 'a
  | Exit nat
  | Abort
  | Fault
  | Fork "'a io" "'a io"
  | Wait "'a io"
  | Execvp "string option" "string list" "'a io"
  | Printf string "'a io"
  | Close fd "'a io"
  | Open "string option" oflag "'a io"
  | Pipe "'a io"
  | Dup fd "'a io"
  | Chdir "string option" "'a io" "'a io"
  | ChdirHome "'a io" "'a io"

text \<open>
  Sequencing: what follows a call follows it in every process that returns from it.
  For \<open>Chdir\<close> and \<open>ChdirHome\<close> the first subtree is the failure of the call, the second
  its success.
\<close>

primrec bind :: "'a io \<Rightarrow> ('a \<Rightarrow> 'b io) \<Rightarrow> 'b io" where
  "bind (Return x) k = k x"
| "bind (Exit n) k = Exit n"
| "bind Abort k = Abort"
| "bind Fault k = Fault"
| "bind (Fork c p) k = Fork (bind c k) (bind p k)"
| "bind (Wait m) k = Wait (bind m k)"
| "bind (Execvp file argv m) k = Execvp file argv (bind m k)"
| "bind (Printf str m) k = Printf str (bind m k)"
| "bind (Close d m) k = Close d (bind m k)"
| "bind (Open file fl m) k = Open file fl (bind m k)"
| "bind (Pipe m) k = Pipe (bind m k)"
| "bind (Dup d m) k = Dup d (bind m k)"
| "bind (Chdir dir m n) k = Chdir dir (bind m k) (bind n k)"
| "bind (ChdirHome m n) k = ChdirHome (bind m k) (bind n k)"

text \<open>The values with which the function returns, in any process.\<close>

primrec returns :: "'a io \<Rightarrow> 'a set" where
  "returns (Return x) = {x}"
| "returns (Exit n) = {}"
| "returns Abort = {}"
| "returns Fault = {}"
| "returns (Fork c p) = returns c \<union> returns p"
| "returns (Wait m) = returns m"
| "returns (Execvp file argv m) = returns m"
| "returns (Printf str m) = returns m"
| "returns (Close d m) = returns m"
| "returns (Open file fl m) = returns m"
| "returns (Pipe m) = returns m"
| "returns (Dup d m) = returns m"
| "returns (Chdir dir m n) = returns m \<union> returns n"
| "returns (ChdirHome m n) = returns m \<union> returns n"

text \<open>
  The values with which the function returns in the process that called it: at a
  \<open>Fork\<close> the calling process is the parent.
\<close>

primrec own_returns :: "'a io \<Rightarrow> 'a set" where
  "own_returns (Return x) = {x}"
| "own_returns (Exit n) = {}"
| "own_returns Abort = {}"
| "own_returns Fault = {}"
| "own_returns (Fork c p) = own_returns p"
| "own_returns (Wait m) = own_returns m"
| "own_returns (Execvp file argv m) = own_returns m"
| "own_returns (Printf str m) = own_returns m"
| "own_returns (Close d m) = own_returns m"
| "own_returns (Open file fl m) = own_returns m"
| "own_returns (Pipe m) = own_returns m"
| "own_returns (Dup d m) = own_returns m"
| "own_returns (Chdir dir m n) = own_returns m \<union> own_returns n"
| "own_returns (ChdirHome m n) = own_returns m \<union> own_returns n"

text \<open>
  The numbers of children that a process has created and not yet waited for at its calls
  of \<^verbatim>\<open>wait\<close>, over all the processes of the tree; the calling process enters with \<open>n\<close>
  such children, a child with none. At a count above 1 the call can return for a child
  other than the one created last.
\<close>

primrec pending_at_wait :: "nat \<Rightarrow> 'a io \<Rightarrow> nat set" where
  "pending_at_wait n (Return x) = {}"
| "pending_at_wait n (Exit k) = {}"
| "pending_at_wait n Abort = {}"
| "pending_at_wait n Fault = {}"
| "pending_at_wait n (Fork c p) = pending_at_wait 0 c \<union> pending_at_wait (Suc n) p"
| "pending_at_wait n (Wait m) = insert n (pending_at_wait (n - 1) m)"
| "pending_at_wait n (Execvp file argv m) = pending_at_wait n m"
| "pending_at_wait n (Printf str m) = pending_at_wait n m"
| "pending_at_wait n (Close d m) = pending_at_wait n m"
| "pending_at_wait n (Open file fl m) = pending_at_wait n m"
| "pending_at_wait n (Pipe m) = pending_at_wait n m"
| "pending_at_wait n (Dup d m) = pending_at_wait n m"
| "pending_at_wait n (Chdir dir m k) = pending_at_wait n m \<union> pending_at_wait n k"
| "pending_at_wait n (ChdirHome m k) = pending_at_wait n m \<union> pending_at_wait n k"

subsection \<open>Process orchestrator (shell.c)\<close>

text \<open>
  \<^verbatim>\<open>char *left_tokens[MAX_CHAR]\<close> and \<^verbatim>\<open>char *right_tokens[MAX_CHAR]\<close> are automatic
  arrays without initialiser: an activation of \<^verbatim>\<open>execute_special\<close> or of \<^verbatim>\<open>custom_pipe\<close>
  finds in them what the stack holds at that place, for instance what the \<^verbatim>\<open>split\<close> of
  an earlier command stored there. The contents are a parameter of the model, any
  contents being possible: \<open>stale []\<close> is what the two arrays hold that the resolution of
  the first operator hands to \<^verbatim>\<open>split\<close> (those of \<^verbatim>\<open>execute_special\<close> for \<^verbatim>\<open>;\<close>, \<^verbatim>\<open><\<close>
  and \<^verbatim>\<open>>\<close>, those of \<^verbatim>\<open>custom_pipe\<close> for \<^verbatim>\<open>|\<close>), and \<open>descend k stale\<close> is the same
  for the resolution of the left side (\<open>k = 0\<close>) and of the right side (\<open>k = 1\<close>). A
  pointer found in a slot is modelled by the string it points to. \<open>local_array held\<close> is
  the array of \<open>MAX_CHAR\<close> slots that holds \<open>held\<close> in its first slots and \<^verbatim>\<open>NULL\<close> in
  those behind them.
\<close>

type_synonym stack = "nat list \<Rightarrow> string option list \<times> string option list"

definition local_array :: "string option list \<Rightarrow> slots" where
  "local_array held = take MAX_CHAR held @ replicate (MAX_CHAR - length held) None"

definition descend :: "nat \<Rightarrow> stack \<Rightarrow> stack" where
  "descend k stale = (\<lambda>path. stale (k # path))"

text \<open>\<^verbatim>\<open>arr[0]\<close> of a pointer array.\<close>

definition first_slot :: "slots \<Rightarrow> string option" where
  "first_slot arr = (case arr of [] \<Rightarrow> None | x # _ \<Rightarrow> x)"

text \<open>\<^verbatim>\<open>tokens[0]\<close> of a NUL-terminated sequence: \<^verbatim>\<open>NULL\<close> when it is empty.\<close>

definition first_token :: "string list \<Rightarrow> string option" where
  "first_token tokens = (case tokens of [] \<Rightarrow> None | t # _ \<Rightarrow> Some t)"

text \<open>
  \<^verbatim>\<open>execvp(file, argv)\<close>: the library reads the name through the pointer, so a \<^verbatim>\<open>NULL\<close>
  name ends the process; otherwise the call replaces the image or fails and returns.
\<close>

definition execvp :: "string option \<Rightarrow> string list \<Rightarrow> 'a io \<Rightarrow> 'a io" where
  "execvp file argv k = (case file of None \<Rightarrow> Fault | Some name \<Rightarrow> Execvp (Some name) argv k)"

text \<open>\<^verbatim>\<open>execvp(arr[0], arr)\<close> on a pointer array, read up to its first \<^verbatim>\<open>NULL\<close>.\<close>

definition execvp_slots :: "slots \<Rightarrow> 'a io \<Rightarrow> 'a io" where
  "execvp_slots arr k =
     (case tokens_of arr of None \<Rightarrow> Fault | Some argv \<Rightarrow> execvp (first_slot arr) argv k)"

text \<open>The octal mode \<^verbatim>\<open>0644\<close>.\<close>

definition mode_0644 :: nat where
  "mode_0644 = 6 * 64 + 4 * 8 + 4"

definition handle_input_redirection :: "string list \<Rightarrow> slots \<Rightarrow> slots \<Rightarrow> unit io" where
  "handle_input_redirection tokens left_tokens right_tokens =
     (case split ''<'' tokens left_tokens right_tokens of
        Inl e \<Rightarrow> Fault
      | Inr (l, r) \<Rightarrow>
          Fork
            (Close (Fd 0) (Open (first_slot r) ReadOnly
               (execvp_slots l (Printf ''Incorrect input.\<newline>'' (Exit 0)))))
            (Wait (Return ())))"

definition handle_output_redirection :: "string list \<Rightarrow> slots \<Rightarrow> slots \<Rightarrow> unit io" where
  "handle_output_redirection tokens left_tokens right_tokens =
     (case split ''>'' tokens left_tokens right_tokens of
        Inl e \<Rightarrow> Fault
      | Inr (l, r) \<Rightarrow>
          Fork
            (Close (Fd 1) (Open (first_slot r) (WriteCreateTruncate mode_0644)
               (execvp_slots l (Printf ''Incorrect input.\<newline>'' (Exit 0)))))
            (Wait (Return ())))"

text \<open>
  \<^verbatim>\<open>execute_special\<close>, \<^verbatim>\<open>handle_semicolon\<close> and \<^verbatim>\<open>custom_pipe\<close> call each other.
  \<open>execute_special_slots\<close> is the call \<^verbatim>\<open>execute_special(left_tokens)\<close> or
  \<^verbatim>\<open>execute_special(right_tokens)\<close> on an array that \<^verbatim>\<open>split\<close> has written: a nested
  activation, which reads the array up to its first \<^verbatim>\<open>NULL\<close>. What the arrays hold behind
  the stored tokens can lead to further operators without end, and the frame of every
  activation holds two arrays of \<open>MAX_CHAR\<close> pointers: \<open>depth\<close> is the number of nested
  activations the stack has room for, and a call beyond it is a \<open>Fault\<close>.
\<close>

function execute_special :: "nat \<Rightarrow> stack \<Rightarrow> string list \<Rightarrow> unit io"
  and execute_special_slots :: "nat \<Rightarrow> stack \<Rightarrow> slots \<Rightarrow> unit io"
  and handle_semicolon :: "nat \<Rightarrow> stack \<Rightarrow> string list \<Rightarrow> slots \<Rightarrow> slots \<Rightarrow> unit io"
  and custom_pipe :: "nat \<Rightarrow> stack \<Rightarrow> string list \<Rightarrow> unit io"
where
  "execute_special depth stale tokens =
     (if has_special tokens = 1 then
        handle_semicolon depth stale tokens
          (local_array (fst (stale []))) (local_array (snd (stale [])))
      else if has_special tokens = 2 then
        handle_input_redirection tokens
          (local_array (fst (stale []))) (local_array (snd (stale [])))
      else if has_special tokens = 3 then
        handle_output_redirection tokens
          (local_array (fst (stale []))) (local_array (snd (stale [])))
      else if has_special tokens = 4 then custom_pipe depth stale tokens
      else execvp (first_token tokens) tokens (Printf ''Invalid input.\<newline>'' (Exit 0)))"
| "execute_special_slots depth stale arr =
     (case depth of
        0 \<Rightarrow> Fault
      | Suc d \<Rightarrow>
          (case tokens_of arr of
             None \<Rightarrow> Fault
           | Some tokens \<Rightarrow> execute_special d stale tokens))"
| "handle_semicolon depth stale tokens left_tokens right_tokens =
     (case split '';'' tokens left_tokens right_tokens of
        Inl e \<Rightarrow> Fault
      | Inr (l, r) \<Rightarrow>
          Fork
            (execute_special_slots depth (descend 0 stale) l)
            (Wait
              (Fork
                (execute_special_slots depth (descend 1 stale) r)
                (Wait (Return ())))))"
| "custom_pipe depth stale tokens =
     (case split ''|'' tokens (local_array (fst (stale []))) (local_array (snd (stale []))) of
        Inl e \<Rightarrow> Fault
      | Inr (l, r) \<Rightarrow>
          Fork
            (Pipe
              (Fork
                (Close ReadEnd (Close (Fd 1) (Dup WriteEnd
                  (execute_special_slots depth (descend 0 stale) l))))
                (Close WriteEnd (Close (Fd 0) (Dup ReadEnd
                  (bind
                    (execute_special_slots depth (descend 1 stale) r)
                    (\<lambda>_. Wait (Return ()))))))))
            (Wait (Return ())))"
  by pat_completeness auto
termination
  by (relation "inv_image (less_than <*lex*> less_than)
        (\<lambda>x. case x of
           Inl (Inl (d, st, ts)) \<Rightarrow> (d, 2::nat)
         | Inl (Inr (d, st, arr)) \<Rightarrow> (d, 0)
         | Inr (Inl (d, st, ts, l, r)) \<Rightarrow> (d, 1)
         | Inr (Inr (d, st, ts)) \<Rightarrow> (d, 1))")
     auto

declare execute_special.simps [simp del]
declare execute_special_slots.simps [simp del]
declare handle_semicolon.simps [simp del]
declare custom_pipe.simps [simp del]

definition handle_specials_exec :: "nat \<Rightarrow> stack \<Rightarrow> string list \<Rightarrow> unit io" where
  "handle_specials_exec depth stale tokens =
     (if has_special tokens = 4 then
        (if num_pipes tokens > 1 then execute_special depth stale tokens
         else custom_pipe depth stale tokens)
      else execute_special depth stale tokens)"

subsection \<open>Built-in dispatcher (shell.c)\<close>

text \<open>An error of the tokenizer, as what the process does.\<close>

definition raise_error :: "error \<Rightarrow> 'a io" where
  "raise_error e = (case e of Exited n \<Rightarrow> Exit n | OutOfBounds \<Rightarrow> Fault | NullPointer \<Rightarrow> Fault)"

text \<open>\<^verbatim>\<open>tokens[i]\<close> for an index up to the terminating \<^verbatim>\<open>NULL\<close>.\<close>

definition token_at :: "string list \<Rightarrow> nat \<Rightarrow> string option" where
  "token_at tokens i = (if i < length tokens then Some (tokens ! i) else None)"

text \<open>
  \<^verbatim>\<open>update_prev_tokens\<close> copies \<open>MAX_CHAR\<close> bytes; both buffers must hold that many.
\<close>

definition update_prev_tokens :: "char list \<Rightarrow> char list \<Rightarrow> char list option" where
  "update_prev_tokens tokens prev_tokens =
     (if MAX_CHAR \<le> length tokens \<and> MAX_CHAR \<le> length prev_tokens
      then Some (take MAX_CHAR tokens @ drop MAX_CHAR prev_tokens)
      else None)"

definition no_dir :: "string list \<Rightarrow> char list \<Rightarrow> char list \<Rightarrow> char list io" where
  "no_dir tokens str prev_tokens =
     Fork
       (execvp (first_token tokens) tokens
          (Printf ''No such file or directory\<newline>'' (Exit 0)))
       (Wait
          (case update_prev_tokens str prev_tokens of
             None \<Rightarrow> Fault
           | Some p \<Rightarrow> Return p))"

text \<open>
  \<^verbatim>\<open>tokenize_elements\<close> overwrites the first newline of the buffer (or its terminator) with
  NUL, tokenizes the buffer and stores the tokens and a terminating \<^verbatim>\<open>NULL\<close> in an array
  of \<open>MAX_CHAR\<close> slots. It yields the buffer as it leaves it and the stored sequence.
\<close>

definition strcspn_newline :: "char list \<Rightarrow> nat" where
  "strcspn_newline buf = length (takeWhile (\<lambda>c. c \<noteq> NEWLINE \<and> c \<noteq> NUL) buf)"

definition tokenize_elements :: "char list \<Rightarrow> error + (char list \<times> string list)" where
  "tokenize_elements new_command =
     (if strcspn_newline new_command < length new_command then
        (case tokenize (new_command[strcspn_newline new_command := NUL]) of
           Inl e \<Rightarrow> Inl e
         | Inr tokenized_vals \<Rightarrow>
             if length tokenized_vals < MAX_CHAR
             then Inr (new_command[strcspn_newline new_command := NUL], tokenized_vals)
             else Inl OutOfBounds)
      else Inl OutOfBounds)"

definition help_text_1 :: string where
  "help_text_1 = ''Minishell by Alina Chiu\<newline>Built-In cCmmands\<newline>---\<newline>\<newline>''"

definition help_text_2 :: string where
  "help_text_2 = ''usage: cd [directory_name]\<newline>Change the current working directory of the shell. If no directory is provided, changes to Home directory.\<newline>\<newline>''"

definition help_text_3 :: string where
  "help_text_3 = ''usage: source [filename]\<newline>Takes a filename as an argument and processes each line of the file as a command, including built-ins. In other words, each line should be processed as if it was entered by the user at the prompt.\<newline>\<newline>''"

definition help_text_4 :: string where
  "help_text_4 = ''usage: prev\<newline>Prints the previous command and executes it again. If there is no previous value, nothing is executed or printed\<newline>\<newline>''"

definition help_text_5 :: string where
  "help_text_5 = ''usage: help\<newline>Explains all built-in commands available in this minishell\<newline>''"

definition handle_help :: "unit io" where
  "handle_help =
     Printf help_text_1 (Printf help_text_2 (Printf help_text_3 (Printf help_text_4
       (Printf help_text_5 (Return ())))))"

definition handle_cd :: "nat \<Rightarrow> string list \<Rightarrow> unit io" where
  "handle_cd tokens_size tokens =
     (if tokens_size = 2 then
        Chdir (token_at tokens 1)
          (Printf ''-shell: cd: given directory does not exist\<newline>'' (Return ()))
          (Return ())
      else if tokens_size = 1 then ChdirHome Abort (Return ())
      else
        Printf ''-shell: cd: too many arguments.\<newline>cd: usage: cd [directory_name]\<newline>''
          (Return ()))"

text \<open>
  The files \<^verbatim>\<open>source\<close> reads are a parameter: for the name of a file that can be opened,
  the strings that the successive calls of \<^verbatim>\<open>fgets\<close> deliver.
\<close>

type_synonym files = "string \<Rightarrow> string list option"

text \<open>\<^verbatim>\<open>fgets\<close> stores the string and a terminator at the start of the buffer.\<close>

definition fgets_into :: "char list \<Rightarrow> string \<Rightarrow> char list option" where
  "fgets_into line str =
     (if length str < length line then Some (str @ NUL # drop (length str + 1) line)
      else None)"

text \<open>
  The buffers \<^verbatim>\<open>line\<close> and \<^verbatim>\<open>prev\<close> of \<^verbatim>\<open>handle_source\<close> are automatic arrays without
  initialiser, modelled as storage that reads as zero. The frame of \<^verbatim>\<open>handle_source\<close>
  holds three arrays of \<open>MAX_CHAR\<close> elements and the function is entered again for a
  \<^verbatim>\<open>source\<close> line of the file: \<open>depth\<close> is the number of such frames the stack has
  room for, and a call beyond it is a \<open>Fault\<close>. \<open>stale\<close> is what the stack holds for the
  activations of the orchestrator that the dispatched command leads to.
\<close>

definition zeroed :: "char list" where
  "zeroed = replicate MAX_CHAR NUL"

lemma tokenize_elements_empty:
  assumes "tokenize_elements buf = Inr (buf', toks)" and "cstring buf' = []"
  shows "toks = []"
proof -
  let ?b = "buf[strcspn_newline buf := NUL]"
  from assms(1) have n: "strcspn_newline buf < length buf"
    and t: "tokenize ?b = Inr toks" and b: "buf' = ?b"
    by (auto simp: tokenize_elements_def split: if_splits sum.splits)
  from n have bne: "buf \<noteq> []" by auto
  then have ne: "?b \<noteq> []" by simp
  with assms(2) b have z: "?b ! 0 = NUL"
    by (cases ?b) (auto simp: cstring_def split: if_splits)
  have "tokenize ?b = Inr []"
    unfolding tokenize_def
    by (subst tokenize_loop.simps)
       (simp add: z bne MAX_CHAR_def add_and_reset_def vect_new_def)
  with t show ?thesis by simp
qed

text \<open>
  \<^verbatim>\<open>free_mem\<close> releases the copies of the tokens and has no counterpart in the model.
  In \<^verbatim>\<open>handle_prev\<close> the test \<^verbatim>\<open>prev_tokens != NULL\<close> holds for every buffer.
\<close>

function execute ::
    "nat \<Rightarrow> files \<Rightarrow> stack \<Rightarrow> string list \<Rightarrow> char list \<Rightarrow> char list \<Rightarrow> (int \<times> char list) io"
  and handle_source :: "nat \<Rightarrow> files \<Rightarrow> stack \<Rightarrow> string list \<Rightarrow> unit io"
  and source_loop ::
    "nat \<Rightarrow> files \<Rightarrow> stack \<Rightarrow> string list \<Rightarrow> char list \<Rightarrow> char list \<Rightarrow> unit io"
  and handle_prev :: "nat \<Rightarrow> files \<Rightarrow> stack \<Rightarrow> string list \<Rightarrow> char list \<Rightarrow> char list io"
where
  "execute depth fs stale tokens commands prev_tokens =
     (if size_tokens tokens \<noteq> 0 then
        (if first_token tokens = Some ''exit'' then Return (1, prev_tokens)
         else if has_special tokens > 0 then
           (case update_prev_tokens commands prev_tokens of
              None \<Rightarrow> Fault
            | Some p \<Rightarrow> bind (handle_specials_exec depth stale tokens) (\<lambda>_. Return (0, p)))
         else if first_token tokens = Some ''cd'' then
           (case update_prev_tokens commands prev_tokens of
              None \<Rightarrow> Fault
            | Some p \<Rightarrow> bind (handle_cd (size_tokens tokens) tokens) (\<lambda>_. Return (0, p)))
         else if first_token tokens = Some ''source'' then
           (case update_prev_tokens commands prev_tokens of
              None \<Rightarrow> Fault
            | Some p \<Rightarrow> bind (handle_source depth fs stale tokens) (\<lambda>_. Return (0, p)))
         else if first_token tokens = Some ''prev'' then
           bind (handle_prev depth fs stale tokens prev_tokens) (\<lambda>p. Return (0, p))
         else if first_token tokens = Some ''help'' then
           (case update_prev_tokens commands prev_tokens of
              None \<Rightarrow> Fault
            | Some p \<Rightarrow> bind handle_help (\<lambda>_. Return (0, p)))
         else
           (case update_prev_tokens commands prev_tokens of
              None \<Rightarrow> Fault
            | Some p \<Rightarrow> bind (no_dir tokens commands p) (\<lambda>p'. Return (0, p'))))
      else Return (0, prev_tokens))"
| "handle_source depth fs stale tokens =
     (case depth of
        0 \<Rightarrow> Fault
      | Suc d \<Rightarrow>
          if size_tokens tokens = 2 then
            (case fs (tokens ! 1) of
               None \<Rightarrow> Fault
             | Some strs \<Rightarrow> source_loop d fs stale strs zeroed zeroed)
          else
            Printf ''-shell: source: filename argument required\<newline>source: usage: source filename\<newline>''
              (Return ()))"
| "source_loop depth fs stale strs line prev =
     (case strs of
        [] \<Rightarrow> Return ()
      | str # rest \<Rightarrow>
          (case fgets_into line str of
             None \<Rightarrow> Fault
           | Some line' \<Rightarrow>
               (case tokenize_elements line' of
                  Inl e \<Rightarrow> raise_error e
                | Inr (line'', new_tokens) \<Rightarrow>
                    (case first_token new_tokens of
                       None \<Rightarrow> Fault
                     | Some t \<Rightarrow>
                         if t = ''exit'' then Return ()
                         else
                           bind
                             (execute depth fs (descend (length rest) stale) new_tokens
                                line'' prev)
                             (\<lambda>res. source_loop depth fs stale rest line'' (snd res))))))"
| "handle_prev depth fs stale tokens prev_tokens =
     (if size_tokens tokens = 1 then
        (if NUL \<in> set prev_tokens then
           Printf (cstring prev_tokens @ ''\<newline>'')
             (case tokenize_elements prev_tokens of
                Inl e \<Rightarrow> raise_error e
              | Inr (prev', old_tokens) \<Rightarrow>
                  if length (cstring prev') = 0 then
                    bind (execute depth fs stale old_tokens prev' prev') (\<lambda>res. Return (snd res))
                  else Return prev')
         else Fault)
      else
        Printf ''-shell: prev: prev requires one argument\<newline>usage: prev: prev\<newline>''
          (Return prev_tokens))"
  by pat_completeness auto

termination
proof (relation "inv_image (less_than <*lex*> less_than <*lex*> less_than)
    (\<lambda>x. case x of
       Inl (Inl (d, fs, st, tokens, c, p)) \<Rightarrow> (2 * d, length tokens, 1::nat)
     | Inl (Inr (d, fs, st, tokens)) \<Rightarrow> (2 * d, 0, 0)
     | Inr (Inl (d, fs, st, strs, l, p)) \<Rightarrow> (2 * d + 1, length strs, 0)
     | Inr (Inr (d, fs, st, tokens, p)) \<Rightarrow> (2 * d, length tokens, 0))", goal_cases)
  case 1
  show ?case by auto
next
  case (2 depth fs stale tokens commands prev_tokens p)
  then show ?case by (auto simp: size_tokens_def)
next
  case (3 depth fs stale tokens commands prev_tokens)
  then show ?case by simp
next
  case (4 depth fs stale tokens d strs)
  then show ?case by simp
next
  case (5 depth fs stale strs line prev str rest line' r line'' new_tokens t)
  then show ?case by simp
next
  case (6 depth fs stale strs line prev str rest line' r line'' new_tokens t res)
  then show ?case by simp
next
  case (7 depth fs stale tokens prev_tokens r prev' old_tokens)
  then show ?case
    using tokenize_elements_empty[of prev_tokens prev' old_tokens]
    by (simp add: size_tokens_def)
qed


declare execute.simps [simp del]
declare handle_source.simps [simp del]
declare source_loop.simps [simp del]
declare handle_prev.simps [simp del]

text \<open>
  The buffer \<^verbatim>\<open>commands\<close> after a line \<open>s\<close> has been read into zeroed storage and its
  newline overwritten; the file system in which no file can be opened; a stack that
  reads as \<^verbatim>\<open>NULL\<close> everywhere; and a stack on which every activation finds what the
  \<^verbatim>\<open>split\<close> of the command \<^verbatim>\<open>echo 1 2 3 ; pwd\<close> stored.
\<close>

definition line_buffer :: "string \<Rightarrow> char list" where
  "line_buffer s = s @ replicate (MAX_CHAR - length s) NUL"

definition no_files :: files where
  "no_files = (\<lambda>name. None)"

definition null_stack :: stack where
  "null_stack = (\<lambda>path. ([], []))"

definition used_stack :: stack where
  "used_stack = (\<lambda>path. ([Some ''echo'', Some ''1'', Some ''2'', Some ''3''], [Some ''pwd'']))"

section \<open>Properties\<close>

text \<open>
  A line \<open>s\<close> that the shell reads reaches \<^verbatim>\<open>tokenize\<close> as the buffer \<open>s @ NUL # rest\<close>:
  \<^verbatim>\<open>fgets\<close> stores the line and a terminator, the newline is overwritten with NUL, and
  \<open>rest\<close> is what the buffer holds behind it.
\<close>

lemmas tokenizer_defs =
  tokenize_def tokenize_loop.simps tokenize_step_def handle_quotes.simps add_and_reset_def vect_add_def
  vect_new_def strncat1_def special_char_def MAX_CHAR_def NUL_def DQUOTE_def BACKSLASH_def

subsection \<open>Tokenizer\<close>

lemma handle_quotes_never_exits:
  "handle_quotes curr_string result i \<noteq> Inl (Exited n)"
proof (induction curr_string result i rule: handle_quotes.induct)
  case (1 curr_string result i)
  show ?case
    using "1.IH"
    by (subst handle_quotes.simps) (auto simp: strncat1_def split: sum.splits if_splits)
qed

lemma tokenize_step_never_exits:
  "tokenize_step curr_string vector result i \<noteq> Inl (Exited n)"
  using handle_quotes_never_exits[of curr_string _ i n]
  by (auto simp: tokenize_step_def strncat1_def split: sum.splits if_splits prod.splits)

lemma tokenize_loop_never_exits:
  "tokenize_loop curr_string vector result i \<noteq> Inl (Exited n)"
proof (induction curr_string vector result i rule: tokenize_loop.induct)
  case (1 curr_string vector result i)
  show ?case
    using "1.IH"
    by (subst tokenize_loop.simps)
       (auto simp: tokenize_step_never_exits split: sum.splits)
qed

text \<open>
  C4. The claim: a line with a double quote and no closing double quote behind it makes
  \<^verbatim>\<open>tokenize\<close> end the process instead of returning tokens. In the code the
  \<^verbatim>\<open>exit(1)\<close> of \<^verbatim>\<open>handle_quotes\<close> stands under the loop condition that excludes it:
  \<^verbatim>\<open>tokenize\<close> exits on no buffer at all, and the line \<^verbatim>\<open>"abc\<close> yields the token
  \<open>abc\<close>, the scan resuming behind the terminator.
\<close>

theorem unterminated_quote_returns_tokens:
  "tokenize curr_string \<noteq> Inl (Exited n)
   \<and> tokenize (DQUOTE # ''abc'' @ NUL # NUL # rest) = Inr [''abc'']"
proof
  show "tokenize curr_string \<noteq> Inl (Exited n)"
    unfolding tokenize_def by (rule tokenize_loop_never_exits)
  show "tokenize (DQUOTE # ''abc'' @ NUL # NUL # rest) = Inr [''abc'']"
    by (simp add: tokenizer_defs)
qed

text \<open>
  C5. The claim: the run between two double quotes is emitted as one token of its own,
  merged with no unquoted character before or behind it. \<^verbatim>\<open>handle_quotes\<close> leaves the
  run in the token buffer without adding it to the vector, so the characters behind the
  closing quote are appended to it: the line \<^verbatim>\<open>"a"b\<close> yields the single token \<open>ab\<close>.
  The line \<^verbatim>\<open>echo "a b"\<close> of the claim yields \<open>echo\<close> and \<open>a b\<close>.
\<close>

theorem quoted_run_merges_with_following:
  "tokenize (DQUOTE # ''a'' @ DQUOTE # ''b'' @ [NUL]) = Inr [''ab'']
   \<and> tokenize (''echo '' @ DQUOTE # ''a b'' @ [DQUOTE, NUL]) = Inr [''echo'', ''a b'']"
  by (simp add: tokenizer_defs)

lemma add_and_reset_nonempty:
  "add_and_reset vector result = (v, r) \<Longrightarrow> [] \<notin> set vector \<Longrightarrow> [] \<notin> set v"
  by (auto simp: add_and_reset_def vect_add_def split: if_splits)

lemma tokenize_step_nonempty:
  "tokenize_step curr_string vector result i = Inr (v, r, i') \<Longrightarrow> [] \<notin> set vector \<Longrightarrow>
   [] \<notin> set v"
  by (auto simp: tokenize_step_def split: if_splits prod.splits sum.splits
      dest: add_and_reset_nonempty)

lemma tokenize_loop_nonempty:
  "tokenize_loop curr_string vector result i = Inr toks \<Longrightarrow> [] \<notin> set vector \<Longrightarrow>
   [] \<notin> set toks"
proof (induction curr_string vector result i rule: tokenize_loop.induct)
  case (1 curr_string vector result i)
  have fin: "[] \<notin> set (fst (add_and_reset vector result))"
    using "1.prems"(2) by (auto simp: add_and_reset_def vect_add_def)
  show ?case
  proof (cases "i < MAX_CHAR \<and> i < length curr_string \<and> curr_string ! i \<noteq> NUL")
    case False
    with "1.prems"(1) fin show ?thesis
      by (subst (asm) tokenize_loop.simps) (auto split: if_splits)
  next
    case True
    with "1.prems"(1) obtain v r i' where
      st: "tokenize_step curr_string vector result i = Inr (v, r, i')" and
      lp: "tokenize_loop curr_string v r i' = Inr toks"
      by (subst (asm) tokenize_loop.simps) (auto split: sum.splits)
    from tokenize_step_nonempty[OF st "1.prems"(2)] have "[] \<notin> set v" .
    with "1.IH"[OF _ _ _ st refl refl lp] True show ?thesis by simp
  qed
qed

text \<open>Without a double quote, no space reaches a token.\<close>

lemma in_cstring:
  assumes "i < length buf" and "\<forall>j\<le>i. buf ! j \<noteq> NUL"
  shows "buf ! i \<in> set (cstring buf)"
proof -
  have "Suc i \<le> length (takeWhile (\<lambda>c. c \<noteq> NUL) buf)"
    using assms by (intro length_takeWhile_less_P_nth) auto
  then have l: "i < length (cstring buf)" by (simp add: cstring_def)
  then have "cstring buf ! i = buf ! i"
    unfolding cstring_def by (rule takeWhile_nth)
  with l show ?thesis by (metis nth_mem)
qed

lemma add_and_reset_spaceless:
  "add_and_reset vector result = (v, r) \<Longrightarrow> spaceless vector result \<Longrightarrow> spaceless v r"
  by (auto simp: add_and_reset_def vect_add_def spaceless_def split: if_splits)

lemma strncat1_spaceless:
  "strncat1 result c = Inr r \<Longrightarrow> c \<noteq> CHR '' '' \<Longrightarrow> spaceless vector result \<Longrightarrow>
   spaceless vector r"
  by (auto simp: strncat1_def spaceless_def split: if_splits)

lemma tokenize_step_spaceless:
  assumes "tokenize_step curr_string vector result i = Inr (v, r, i')"
    and "curr_string ! i \<noteq> DQUOTE" and "spaceless vector result"
  shows "spaceless v r"
  using assms
  by (auto simp: tokenize_step_def split: if_splits prod.splits sum.splits
      dest!: add_and_reset_spaceless strncat1_spaceless)

lemma tokenize_step_index:
  assumes "tokenize_step curr_string vector result i = Inr (v, r, i')"
    and "curr_string ! i \<noteq> DQUOTE" and "curr_string ! i \<noteq> NUL"
    and "\<forall>j<i. curr_string ! j \<noteq> NUL"
  shows "\<forall>j<i'. curr_string ! j \<noteq> NUL"
  using assms
  by (auto simp: tokenize_step_def less_Suc_eq split: if_splits prod.splits sum.splits)

lemma tokenize_loop_spaceless:
  "tokenize_loop curr_string vector result i = Inr toks \<Longrightarrow>
   DQUOTE \<notin> set (cstring curr_string) \<Longrightarrow>
   \<forall>j<i. curr_string ! j \<noteq> NUL \<Longrightarrow>
   spaceless vector result \<Longrightarrow>
   \<forall>t\<in>set toks. CHR '' '' \<notin> set t"
proof (induction curr_string vector result i rule: tokenize_loop.induct)
  case (1 curr_string vector result i)
  have fin: "\<forall>t\<in>set (fst (add_and_reset vector result)). CHR '' '' \<notin> set t"
    using "1.prems"(4) by (auto simp: add_and_reset_def vect_add_def spaceless_def)
  show ?case
  proof (cases "i < MAX_CHAR \<and> i < length curr_string \<and> curr_string ! i \<noteq> NUL")
    case False
    with "1.prems"(1) fin show ?thesis
      by (subst (asm) tokenize_loop.simps) (auto split: if_splits)
  next
    case True
    with "1.prems"(1) obtain v r i' where
      st: "tokenize_step curr_string vector result i = Inr (v, r, i')" and
      lp: "tokenize_loop curr_string v r i' = Inr toks"
      by (subst (asm) tokenize_loop.simps) (auto split: sum.splits)
    from True "1.prems"(3) have "\<forall>j\<le>i. curr_string ! j \<noteq> NUL"
      by (auto simp: le_less)
    with True in_cstring[of i curr_string] "1.prems"(2)
    have nq: "curr_string ! i \<noteq> DQUOTE" by auto
    from tokenize_step_spaceless[OF st nq "1.prems"(4)] have sp: "spaceless v r" .
    from tokenize_step_index[OF st nq _ "1.prems"(3)] True
    have ix: "\<forall>j<i'. curr_string ! j \<noteq> NUL" by simp
    from "1.IH"[OF _ _ _ st refl refl lp "1.prems"(2) ix sp] True show ?thesis by simp
  qed
qed

text \<open>A line without double quote, shorter than \<open>MAX_CHAR\<close>, is tokenized without error.\<close>

lemma tokenize_step_unquoted:
  assumes "i < length s" and "NUL \<notin> set s" and "DQUOTE \<notin> set s" and "length s < MAX_CHAR"
    and "length result \<le> i"
  shows "\<exists>v r i'. tokenize_step (s @ NUL # rest) vector result i = Inr (v, r, i')
           \<and> i' \<le> length s \<and> length r \<le> i'"
proof -
  let ?cs = "s @ NUL # rest"
  have c: "?cs ! i = s ! i" using assms(1) by (simp add: nth_append)
  have nq: "?cs ! i \<noteq> DQUOTE" using assms(1,3) c by (metis nth_mem)
  have nx: "?cs ! (i + 1) \<noteq> NUL \<Longrightarrow> i + 1 < length s"
    using assms(1) by (cases "i + 1 = length s") (auto simp: nth_append)
  have l: "i + 1 < length ?cs" using assms(1) by simp
  have ar: "snd (add_and_reset vector result) = []"
    by (simp add: add_and_reset_def)
  have ar': "length (snd (add_and_reset v r)) \<le> length r" for v r
    by (simp add: add_and_reset_def)
  have cat: "strncat1 result (?cs ! i) = Inr (if ?cs ! i = NUL then result else result @ [?cs ! i])"
    using assms(1,4,5) by (simp add: strncat1_def)
  have cat0: "strncat1 [] (?cs ! i) = Inr (if ?cs ! i = NUL then [] else [?cs ! i])"
    by (simp add: strncat1_def MAX_CHAR_def)
  show ?thesis
    using nq nx l ar ar' cat cat0 assms(1,5)
    by (auto simp: tokenize_step_def split: prod.splits simp del: length_append)
       (auto simp: add_and_reset_def split: if_splits)
qed

lemma tokenize_loop_unquoted:
  assumes "NUL \<notin> set s" and "DQUOTE \<notin> set s" and "length s < MAX_CHAR"
  shows "i \<le> length s \<Longrightarrow> length result \<le> i \<Longrightarrow>
         \<exists>toks. tokenize_loop (s @ NUL # rest) vector result i = Inr toks"
proof (induction "length s - i" arbitrary: i vector result rule: less_induct)
  case less
  show ?case
  proof (cases "i = length s")
    case True
    then show ?thesis using assms(3)
      by (subst tokenize_loop.simps) simp
  next
    case False
    with less.prems have il: "i < length s" by simp
    from tokenize_step_unquoted[OF il assms less.prems(2), of rest vector]
    obtain v r i' where
      st: "tokenize_step (s @ NUL # rest) vector result i = Inr (v, r, i')"
      and b: "i' \<le> length s" "length r \<le> i'"
      by blast
    from tokenize_step_advances[OF st] il have "length s - i' < length s - i" by simp
    from less.hyps[OF this b] obtain toks where
      "tokenize_loop (s @ NUL # rest) v r i' = Inr toks" by blast
    moreover have "(s @ NUL # rest) ! i \<noteq> NUL"
      using il assms(1) by (metis nth_append nth_mem)
    ultimately show ?thesis
      using il assms(3) st by (subst tokenize_loop.simps) simp
  qed
qed

lemma tokenize_unquoted_returns:
  assumes "NUL \<notin> set s" and "DQUOTE \<notin> set s" and "length s < MAX_CHAR"
  shows "\<exists>toks. tokenize (s @ NUL # rest) = Inr toks"
  unfolding tokenize_def using tokenize_loop_unquoted[OF assms, of 0 "[]" rest vect_new] by simp

text \<open>In particular, when the line holds no double quote, no token holds a space.\<close>

lemma unquoted_line_tokens_spaceless:
  assumes "tokenize curr_string = Inr toks"
  shows "[] \<notin> set toks
     \<and> (DQUOTE \<notin> set (cstring curr_string) \<longrightarrow> (\<forall>t\<in>set toks. CHR '' '' \<notin> set t))"
  using assms tokenize_loop_nonempty[of curr_string vect_new "[]" 0 toks]
    tokenize_loop_spaceless[of curr_string vect_new "[]" 0 toks]
  by (simp add: tokenize_def vect_new_def spaceless_def)


lemma add_and_reset_snd: "snd (add_and_reset vector result) = []"
  by (simp add: add_and_reset_def)


lemma token_shape_Nil: "token_shape curr_string []"
  unfolding token_shape_def by (intro exI[of _ "[]"]) simp

lemma token_shape_run:
  assumes "i < length curr_string" and "curr_string ! i = DQUOTE"
    and "handle_quotes curr_string [] i = Inr (q, i')"
  shows "token_shape curr_string q"
proof -
  have "quoted_run curr_string q"
    unfolding quoted_run_def using assms by (intro exI[of _ i]) simp
  then have "q = q @ [] \<and> (q = [] \<or> quoted_run curr_string q) \<and> separator_free []"
    by simp
  then show ?thesis unfolding token_shape_def by (intro exI)
qed












subsection \<open>Operator scanner, splitter and orchestrator\<close>

lemma takeWhile_first_occurrence:
  "op \<notin> set pre \<Longrightarrow> takeWhile (\<lambda>t. t \<noteq> op) (pre @ op # post) = pre"
  by (induction pre) auto

lemma dropWhile_first_occurrence:
  "op \<notin> set pre \<Longrightarrow> tl (dropWhile (\<lambda>t. t \<noteq> op) (pre @ op # post)) = post"
  by (induction pre) auto

lemma has_special_first:
  assumes "\<forall>t\<in>set pre. t \<notin> {'';'', ''<'', ''>'', ''|''}"
  shows "has_special (pre @ op # post) = has_special (op # post)"
  using assms by (induction pre) auto

lemma has_special_0_iff:
  "has_special tokens = 0 \<longleftrightarrow> (\<forall>t\<in>set tokens. t \<notin> {'';'', ''<'', ''>'', ''|''})"
  by (induction tokens) auto

lemma has_special_range: "0 \<le> has_special tokens \<and> has_special tokens \<le> 4"
  by (induction tokens) auto

text \<open>The literal that \<^verbatim>\<open>has_special\<close> reports stands at the first index that holds an operator.\<close>

lemma has_special_decompose:
  assumes "has_special tokens = 1 \<and> op = '';'' \<or> has_special tokens = 2 \<and> op = ''<''
         \<or> has_special tokens = 3 \<and> op = ''>'' \<or> has_special tokens = 4 \<and> op = ''|''"
  shows "op \<in> set tokens \<and> has_special (takeWhile (\<lambda>t. t \<noteq> op) tokens) = 0"
  using assms by (induction tokens) (auto split: if_splits)

lemma first_occurrence_bounds:
  assumes "op \<in> set tokens"
  shows "length (takeWhile (\<lambda>t. t \<noteq> op) tokens) < length tokens"
    and "length (tl (dropWhile (\<lambda>t. t \<noteq> op) tokens)) < length tokens"
    and "takeWhile (\<lambda>t. t \<noteq> op) tokens @ [op] @ tl (dropWhile (\<lambda>t. t \<noteq> op) tokens) = tokens"
    and "op \<notin> set (takeWhile (\<lambda>t. t \<noteq> op) tokens)"
proof -
  from assms obtain pre post where t: "tokens = pre @ op # post" and n: "op \<notin> set pre"
    by (meson split_list_first)
  show "length (takeWhile (\<lambda>t. t \<noteq> op) tokens) < length tokens"
    by (simp add: t takeWhile_first_occurrence[OF n])
  show "length (tl (dropWhile (\<lambda>t. t \<noteq> op) tokens)) < length tokens"
    by (simp add: t dropWhile_first_occurrence[OF n])
  show "takeWhile (\<lambda>t. t \<noteq> op) tokens @ [op] @ tl (dropWhile (\<lambda>t. t \<noteq> op) tokens) = tokens"
    by (simp add: t takeWhile_first_occurrence[OF n] dropWhile_first_occurrence[OF n])
  show "op \<notin> set (takeWhile (\<lambda>t. t \<noteq> op) tokens)"
    by (simp add: t takeWhile_first_occurrence[OF n] n)
qed

lemma tokens_of_stored:
  assumes "length xs < length arr" and "arr ! length xs = None"
  shows "tokens_of (map Some xs @ drop (length xs) arr) = Some xs"
proof -
  from assms have "drop (length xs) arr = None # drop (Suc (length xs)) arr"
    by (metis Cons_nth_drop_Suc)
  then show ?thesis by (simp add: tokens_of_terminated)
qed

lemma length_local_array: "length (local_array held) = MAX_CHAR"
  by (simp add: local_array_def)

lemma local_array_Nil: "local_array [] = replicate MAX_CHAR None"
  by (simp add: local_array_def)

lemma local_array_short:
  "length held \<le> MAX_CHAR \<Longrightarrow>
   local_array held = held @ replicate (MAX_CHAR - length held) None"
  by (simp add: local_array_def)

text \<open>
  \<^verbatim>\<open>split\<close> at the first occurrence of \<open>op\<close>, on arrays of \<open>MAX_CHAR\<close> slots with any
  contents: the tokens before it and behind it are stored, and the slots behind the
  stored tokens keep what they held.
\<close>

lemma split_at:
  assumes "op \<notin> set pre" and "length (pre @ op # post) \<le> MAX_CHAR"
  shows "split op (pre @ op # post) (local_array l0) (local_array r0) =
     Inr (map Some pre @ drop (length pre) (local_array l0),
          map Some post @ drop (length post) (local_array r0))"
  using split_eq[of op "pre @ op # post" "local_array l0" "local_array r0"] assms
  by (simp add: takeWhile_first_occurrence dropWhile_first_occurrence length_local_array)

lemma split_succeeds:
  assumes "op \<in> set tokens" and "length tokens \<le> MAX_CHAR"
  shows "\<exists>l r. split op tokens (local_array l0) (local_array r0) = Inr (l, r)"
proof -
  note b = first_occurrence_bounds[OF assms(1)]
  from split_eq[OF assms(1), of "local_array l0" "local_array r0"] b(1,2) assms(2)
  show ?thesis by (simp add: length_local_array)
qed

text \<open>Arrays whose slots behind the stored tokens are \<^verbatim>\<open>NULL\<close>.\<close>

lemma stored_in_null_array:
  "length xs \<le> MAX_CHAR \<Longrightarrow>
   map Some xs @ drop (length xs) (local_array []) =
     map Some xs @ replicate (MAX_CHAR - length xs) None"
  by (simp add: local_array_Nil)

lemma first_slot_filled:
  "first_slot (map Some xs @ replicate n None) = first_token xs"
  by (cases xs; cases n) (simp_all add: first_slot_def first_token_def)

lemma execvp_slots_filled:
  "0 < n \<Longrightarrow> execvp_slots (map Some xs @ replicate n None) k = execvp (first_token xs) xs k"
  by (simp add: execvp_slots_def tokens_of_filled first_slot_filled)

lemma execute_special_slots_filled:
  "0 < n \<Longrightarrow> execute_special_slots (Suc d) stale (map Some xs @ replicate n None) =
     execute_special d stale xs"
  by (simp add: execute_special_slots.simps tokens_of_filled)

lemma descend_null_stack: "descend k null_stack = null_stack"
  by (simp add: descend_def null_stack_def)

lemma null_stack_arrays:
  "local_array (fst (null_stack path)) = replicate MAX_CHAR None"
  "local_array (snd (null_stack path)) = replicate MAX_CHAR None"
  by (simp_all add: null_stack_def local_array_Nil)

lemma execute_special_leaf:
  "has_special tokens = 0 \<Longrightarrow>
   execute_special depth stale tokens =
     execvp (first_token tokens) tokens (Printf ''Invalid input.\<newline>'' (Exit 0))"
  by (subst execute_special.simps) simp

text \<open>
  C1. In a sequence with an operator, let \<open>op\<close> be the operator at the smallest index:
  \<open>pre\<close>, the tokens before it, holds none of the four literals. \<^verbatim>\<open>has_special\<close> reports
  the kind of \<open>op\<close>, whichever of the four it is and whatever follows; \<^verbatim>\<open>split\<close> on
  \<open>op\<close> stores \<open>pre\<close> and \<open>post\<close>, the tokens behind that occurrence, whatever the arrays
  held; and \<^verbatim>\<open>execute_special\<close> runs the handler of \<open>op\<close> on the arrays so written.
\<close>

theorem first_operator_by_position:
  assumes "op \<in> {'';'', ''<'', ''>'', ''|''}"
    and "\<forall>t\<in>set pre. t \<notin> {'';'', ''<'', ''>'', ''|''}"
    and "length (pre @ op # post) < MAX_CHAR"
  shows "has_special (pre @ op # post) =
           (if op = '';'' then 1 else if op = ''<'' then 2 else if op = ''>'' then 3 else 4)
     \<and> split op (pre @ op # post)
           (local_array (fst (stale []))) (local_array (snd (stale []))) =
         Inr (map Some pre @ drop (length pre) (local_array (fst (stale []))),
              map Some post @ drop (length post) (local_array (snd (stale []))))
     \<and> execute_special depth stale (pre @ op # post) =
         (let l = map Some pre @ drop (length pre) (local_array (fst (stale [])));
              r = map Some post @ drop (length post) (local_array (snd (stale [])))
          in if op = '';'' then
               Fork (execute_special_slots depth (descend 0 stale) l)
                 (Wait (Fork (execute_special_slots depth (descend 1 stale) r)
                   (Wait (Return ()))))
             else if op = ''<'' then
               Fork
                 (Close (Fd 0) (Open (first_slot r) ReadOnly
                    (execvp_slots l (Printf ''Incorrect input.\<newline>'' (Exit 0)))))
                 (Wait (Return ()))
             else if op = ''>'' then
               Fork
                 (Close (Fd 1) (Open (first_slot r) (WriteCreateTruncate mode_0644)
                    (execvp_slots l (Printf ''Incorrect input.\<newline>'' (Exit 0)))))
                 (Wait (Return ()))
             else
               Fork
                 (Pipe
                   (Fork
                     (Close ReadEnd (Close (Fd 1) (Dup WriteEnd
                        (execute_special_slots depth (descend 0 stale) l))))
                     (Close WriteEnd (Close (Fd 0) (Dup ReadEnd
                        (bind (execute_special_slots depth (descend 1 stale) r)
                           (\<lambda>_. Wait (Return ()))))))))
                 (Wait (Return ())))"
proof -
  from assms(1,2) have n: "op \<notin> set pre" by auto
  have h: "has_special (pre @ op # post) =
           (if op = '';'' then 1 else if op = ''<'' then 2 else if op = ''>'' then 3 else 4)"
    using assms(1) has_special_first[OF assms(2), of op post] by auto
  have s: "split op (pre @ op # post)
           (local_array (fst (stale []))) (local_array (snd (stale []))) =
         Inr (map Some pre @ drop (length pre) (local_array (fst (stale []))),
              map Some post @ drop (length post) (local_array (snd (stale []))))"
    using assms(3) by (intro split_at[OF n]) simp
  have e: "execute_special depth stale (pre @ op # post) =
     (if op = '';'' then
        handle_semicolon depth stale (pre @ op # post)
          (local_array (fst (stale []))) (local_array (snd (stale [])))
      else if op = ''<'' then
        handle_input_redirection (pre @ op # post)
          (local_array (fst (stale []))) (local_array (snd (stale [])))
      else if op = ''>'' then
        handle_output_redirection (pre @ op # post)
          (local_array (fst (stale []))) (local_array (snd (stale [])))
      else custom_pipe depth stale (pre @ op # post))"
  proof -
    from assms(1) consider "op = '';''" | "op = ''<''" | "op = ''>''" | "op = ''|''" by auto
    then show ?thesis
    proof cases
      case 1
      with h have "has_special (pre @ op # post) = 1" by simp
      with 1 show ?thesis by (subst execute_special.simps) simp
    next
      case 2
      with h have "has_special (pre @ op # post) = 2" by simp
      with 2 show ?thesis by (subst execute_special.simps) simp
    next
      case 3
      with h have "has_special (pre @ op # post) = 3" by simp
      with 3 show ?thesis by (subst execute_special.simps) simp
    next
      case 4
      with h have "has_special (pre @ op # post) = 4" by simp
      with 4 show ?thesis by (subst execute_special.simps) simp
    qed
  qed
  show ?thesis
  proof (intro conjI)
    show "has_special (pre @ op # post) =
           (if op = '';'' then 1 else if op = ''<'' then 2 else if op = ''>'' then 3 else 4)"
      by (rule h)
    show "split op (pre @ op # post)
           (local_array (fst (stale []))) (local_array (snd (stale []))) =
         Inr (map Some pre @ drop (length pre) (local_array (fst (stale []))),
              map Some post @ drop (length post) (local_array (snd (stale []))))"
      by (rule s)
    show "execute_special depth stale (pre @ op # post) =
         (let l = map Some pre @ drop (length pre) (local_array (fst (stale [])));
              r = map Some post @ drop (length post) (local_array (snd (stale [])))
          in if op = '';'' then
               Fork (execute_special_slots depth (descend 0 stale) l)
                 (Wait (Fork (execute_special_slots depth (descend 1 stale) r)
                   (Wait (Return ()))))
             else if op = ''<'' then
               Fork
                 (Close (Fd 0) (Open (first_slot r) ReadOnly
                    (execvp_slots l (Printf ''Incorrect input.\<newline>'' (Exit 0)))))
                 (Wait (Return ()))
             else if op = ''>'' then
               Fork
                 (Close (Fd 1) (Open (first_slot r) (WriteCreateTruncate mode_0644)
                    (execvp_slots l (Printf ''Incorrect input.\<newline>'' (Exit 0)))))
                 (Wait (Return ()))
             else
               Fork
                 (Pipe
                   (Fork
                     (Close ReadEnd (Close (Fd 1) (Dup WriteEnd
                        (execute_special_slots depth (descend 0 stale) l))))
                     (Close WriteEnd (Close (Fd 0) (Dup ReadEnd
                        (bind (execute_special_slots depth (descend 1 stale) r)
                           (\<lambda>_. Wait (Return ()))))))))
                 (Wait (Return ())))"
      using assms(1) s
      by (auto simp: e handle_semicolon.simps handle_input_redirection_def
            handle_output_redirection_def custom_pipe.simps Let_def)
  qed
qed

text \<open>
  The sequence \<^verbatim>\<open>cat f > out ; echo done\<close> is resolved at \<^verbatim>\<open>>\<close>, not at \<^verbatim>\<open>;\<close>; here on a
  stack that reads as \<^verbatim>\<open>NULL\<close>.
\<close>

theorem first_operator_by_position_witness:
  "has_special [''cat'', ''f'', ''>'', ''out'', '';'', ''echo'', ''done''] = 3
   \<and> split ''>'' [''cat'', ''f'', ''>'', ''out'', '';'', ''echo'', ''done'']
         (local_array []) (local_array []) =
       Inr (local_array [Some ''cat'', Some ''f''],
            local_array [Some ''out'', Some '';'', Some ''echo'', Some ''done''])
   \<and> execute_special 1 null_stack [''cat'', ''f'', ''>'', ''out'', '';'', ''echo'', ''done''] =
       Fork
         (Close (Fd 1) (Open (Some ''out'') (WriteCreateTruncate mode_0644)
            (Execvp (Some ''cat'') [''cat'', ''f'']
               (Printf ''Incorrect input.\<newline>'' (Exit 0)))))
         (Wait (Return ()))"
  using first_operator_by_position[of "''>''" "[''cat'', ''f'']"
      "[''out'', '';'', ''echo'', ''done'']" null_stack 1]
    tokens_of_filled[of "[''cat'', ''f'']" 254]
    first_slot_filled[of "[''out'', '';'', ''echo'', ''done'']" 252]
    first_slot_filled[of "[''cat'', ''f'']" 254]
  by (simp add: MAX_CHAR_def first_token_def null_stack_def local_array_def execvp_slots_def
        execvp_def Let_def)


text \<open>
  What \<^verbatim>\<open>split\<close> does achieve when \<^verbatim>\<open>has_special\<close> reports an operator with literal
  \<open>op\<close>: the tokens before the first occurrence of \<open>op\<close> are stored in \<^verbatim>\<open>left_tokens\<close>,
  those behind it in \<^verbatim>\<open>right_tokens\<close>, and an array read as a terminated sequence is the
  side itself where the slot behind the stored tokens held \<^verbatim>\<open>NULL\<close> before the call.
\<close>

lemma split_stores_both_sides:
  assumes "has_special tokens = 1 \<and> op = '';'' \<or> has_special tokens = 2 \<and> op = ''<''
         \<or> has_special tokens = 3 \<and> op = ''>'' \<or> has_special tokens = 4 \<and> op = ''|''"
    and "length tokens \<le> length left_tokens"
    and "length tokens \<le> length right_tokens"
  shows "\<exists>left right.
           split op tokens left_tokens right_tokens =
             Inr (map Some left @ drop (length left) left_tokens,
                  map Some right @ drop (length right) right_tokens)
         \<and> left @ [op] @ right = tokens
         \<and> op \<notin> set left
         \<and> left = takeWhile (\<lambda>t. t \<noteq> op) tokens
         \<and> right = tl (dropWhile (\<lambda>t. t \<noteq> op) tokens)
         \<and> (left_tokens ! length left = None \<longrightarrow>
              tokens_of (map Some left @ drop (length left) left_tokens) = Some left)
         \<and> (right_tokens ! length right = None \<longrightarrow>
              tokens_of (map Some right @ drop (length right) right_tokens) = Some right)"
proof -
  let ?left = "takeWhile (\<lambda>t. t \<noteq> op) tokens"
  let ?right = "tl (dropWhile (\<lambda>t. t \<noteq> op) tokens)"
  from has_special_decompose[OF assms(1)] have m: "op \<in> set tokens" by simp
  note b = first_occurrence_bounds[OF m]
  have s: "split op tokens left_tokens right_tokens =
             Inr (map Some ?left @ drop (length ?left) left_tokens,
                  map Some ?right @ drop (length ?right) right_tokens)"
    using split_eq[OF m, of left_tokens right_tokens] b(1,2) assms(2,3) by simp
  have l: "left_tokens ! length ?left = None \<Longrightarrow>
           tokens_of (map Some ?left @ drop (length ?left) left_tokens) = Some ?left"
    using b(1) assms(2) by (intro tokens_of_stored) simp_all
  have r: "right_tokens ! length ?right = None \<Longrightarrow>
           tokens_of (map Some ?right @ drop (length ?right) right_tokens) = Some ?right"
    using b(2) assms(3) by (intro tokens_of_stored) simp_all
  have "split op tokens left_tokens right_tokens =
             Inr (map Some ?left @ drop (length ?left) left_tokens,
                  map Some ?right @ drop (length ?right) right_tokens)
         \<and> ?left @ [op] @ ?right = tokens
         \<and> op \<notin> set ?left
         \<and> ?left = takeWhile (\<lambda>t. t \<noteq> op) tokens
         \<and> ?right = tl (dropWhile (\<lambda>t. t \<noteq> op) tokens)
         \<and> (left_tokens ! length ?left = None \<longrightarrow>
              tokens_of (map Some ?left @ drop (length ?left) left_tokens) = Some ?left)
         \<and> (right_tokens ! length ?right = None \<longrightarrow>
              tokens_of (map Some ?right @ drop (length ?right) right_tokens) = Some ?right)"
    using s b(3,4) l r by simp
  then show ?thesis by (intro exI)
qed

text \<open>
  C2. The claim: \<^verbatim>\<open>split\<close> yields \<open>left\<close> and \<open>right\<close> with \<open>left @ [op] @ right\<close> the
  sequence, \<open>left\<close> exactly the tokens before the first \<open>op\<close> and \<open>right\<close> exactly those
  behind it. \<^verbatim>\<open>split\<close> stores the tokens and no terminating \<^verbatim>\<open>NULL\<close>, and no caller
  clears the arrays: for \<^verbatim>\<open>a ; b\<close> and a left array that holds two pointers from
  before, the left side that the callers read, up to the first \<^verbatim>\<open>NULL\<close>, is \<open>a\<close> followed
  by the stale \<open>y\<close>.
\<close>

theorem split_writes_no_terminator:
  "split '';'' [''a'', '';'', ''b''] (local_array [Some ''x'', Some ''y'']) (local_array [])
     = Inr (local_array [Some ''a'', Some ''y''], local_array [Some ''b''])
   \<and> tokens_of (local_array [Some ''a'', Some ''y'']) = Some [''a'', ''y'']
   \<and> tokens_of (local_array [Some ''b'']) = Some [''b'']"
proof -
  have "split '';'' ([''a''] @ '';'' # [''b'']) (local_array [Some ''x'', Some ''y''])
          (local_array []) =
     Inr (map Some [''a''] @ drop (length [''a'']) (local_array [Some ''x'', Some ''y'']),
          map Some [''b''] @ drop (length [''b'']) (local_array []))"
    by (rule split_at) (simp_all add: MAX_CHAR_def)
  moreover have "tokens_of (local_array [Some ''a'', Some ''y'']) = Some [''a'', ''y'']"
    using tokens_of_filled[of "[''a'', ''y'']" 254] by (simp add: local_array_def MAX_CHAR_def)
  moreover have "tokens_of (local_array [Some ''b'']) = Some [''b'']"
    using tokens_of_filled[of "[''b'']" 255] by (simp add: local_array_def MAX_CHAR_def)
  ultimately show ?thesis
    by (simp add: local_array_def MAX_CHAR_def)
qed

text \<open>
  The order of the calls of \<^verbatim>\<open>handle_semicolon\<close> does not depend on what the two arrays
  hold: whenever \<^verbatim>\<open>split\<close> succeeds, the handler is fork, wait, fork, wait, return.
\<close>

lemma handle_semicolon_order:
  "handle_semicolon depth stale tokens left_tokens right_tokens = Fault
   \<or> (\<exists>a b. handle_semicolon depth stale tokens left_tokens right_tokens =
         Fork a (Wait (Fork b (Wait (Return ())))))"
  by (subst (1 2) handle_semicolon.simps) (auto split: sum.splits)

text \<open>
  The stack \<open>used_stack\<close> is what the command \<^verbatim>\<open>echo 1 2 3 ; pwd\<close> leaves in the two arrays.
\<close>

lemma earlier_command_leaves_used_stack:
  "split '';'' [''echo'', ''1'', ''2'', ''3'', '';'', ''pwd''] (local_array []) (local_array [])
     = Inr (local_array (fst (used_stack path)), local_array (snd (used_stack path)))"
proof -
  have "split '';'' ([''echo'', ''1'', ''2'', ''3''] @ '';'' # [''pwd''])
          (local_array []) (local_array []) =
     Inr (map Some [''echo'', ''1'', ''2'', ''3'']
            @ drop (length [''echo'', ''1'', ''2'', ''3'']) (local_array []),
          map Some [''pwd''] @ drop (length [''pwd'']) (local_array []))"
    by (rule split_at) (simp_all add: MAX_CHAR_def)
  then show ?thesis
    by (simp add: local_array_def MAX_CHAR_def used_stack_def)
qed

text \<open>
  C8. The claim: for a first operator \<^verbatim>\<open>;\<close> the two sides that the split yields are run,
  \<open>left\<close> to completion before \<open>right\<close> begins. The sides reach the children through
  arrays without terminator: on the stack that \<^verbatim>\<open>echo 1 2 3 ; pwd\<close> left, the command
  \<^verbatim>\<open>echo hi ; pwd\<close> runs \<^verbatim>\<open>echo hi 2 3\<close> as its left side.
\<close>

theorem semicolon_runs_stale_arguments:
  "has_special [''echo'', ''hi'', '';'', ''pwd''] = 1
   \<and> execute_special 1 used_stack [''echo'', ''hi'', '';'', ''pwd''] =
       Fork
         (Execvp (Some ''echo'') [''echo'', ''hi'', ''2'', ''3'']
            (Printf ''Invalid input.\<newline>'' (Exit 0)))
         (Wait
           (Fork
             (Execvp (Some ''pwd'') [''pwd''] (Printf ''Invalid input.\<newline>'' (Exit 0)))
             (Wait (Return ()))))"
proof -
  have s: "split '';'' ([''echo'', ''hi''] @ '';'' # [''pwd''])
          (local_array (fst (used_stack []))) (local_array (snd (used_stack []))) =
     Inr (map Some [''echo'', ''hi'']
            @ drop (length [''echo'', ''hi'']) (local_array (fst (used_stack []))),
          map Some [''pwd''] @ drop (length [''pwd'']) (local_array (snd (used_stack []))))"
    by (rule split_at) (simp_all add: MAX_CHAR_def)
  have l: "execute_special_slots 1 (descend 0 used_stack)
             (map Some [''echo'', ''hi'', ''2'', ''3''] @ replicate 252 None) =
           execute_special 0 (descend 0 used_stack) [''echo'', ''hi'', ''2'', ''3'']"
    using execute_special_slots_filled[of 252 0 "descend 0 used_stack"
        "[''echo'', ''hi'', ''2'', ''3'']"] by simp
  have r: "execute_special_slots 1 (descend 1 used_stack)
             (map Some [''pwd''] @ replicate 255 None) =
           execute_special 0 (descend 1 used_stack) [''pwd'']"
    using execute_special_slots_filled[of 255 0 "descend 1 used_stack" "[''pwd'']"] by simp
  show ?thesis
    using s l r
    by (subst execute_special.simps)
       (simp add: handle_semicolon.simps used_stack_def local_array_def MAX_CHAR_def
          execute_special_leaf execvp_def first_token_def)
qed

text \<open>
  \<^verbatim>\<open>wait(NULL)\<close> names no child. In the shell's own process, which has no other child,
  each \<^verbatim>\<open>wait\<close> of \<^verbatim>\<open>handle_semicolon\<close> finds the one child created before it. As the right
  side of a pipe the sequence is resolved in the process that created the child of the
  left side of the pipe: in \<^verbatim>\<open>true | sleep 5 ; echo hi\<close> the \<^verbatim>\<open>wait\<close> behind the fork of
  \<^verbatim>\<open>sleep 5\<close> is called with two children, and returns when \<^verbatim>\<open>true\<close> ends.
\<close>

lemma semicolon_waits_in_shell_process:
  "pending_at_wait 0 (execute_special 1 null_stack [''ls'', '';'', ''pwd'']) = {1}"
proof -
  have s: "split '';'' ([''ls''] @ '';'' # [''pwd''])
          (local_array (fst (null_stack []))) (local_array (snd (null_stack []))) =
     Inr (map Some [''ls''] @ drop (length [''ls'']) (local_array (fst (null_stack []))),
          map Some [''pwd''] @ drop (length [''pwd'']) (local_array (snd (null_stack []))))"
    by (rule split_at) (simp_all add: MAX_CHAR_def)
  have l: "execute_special_slots 1 null_stack (map Some [''ls''] @ replicate 255 None) =
           execute_special 0 null_stack [''ls'']"
    using execute_special_slots_filled[of 255 0 null_stack "[''ls'']"] by simp
  have r: "execute_special_slots 1 null_stack (map Some [''pwd''] @ replicate 255 None) =
           execute_special 0 null_stack [''pwd'']"
    using execute_special_slots_filled[of 255 0 null_stack "[''pwd'']"] by simp
  show ?thesis
    using s l r
    by (subst execute_special.simps)
       (simp add: handle_semicolon.simps null_stack_arrays descend_null_stack MAX_CHAR_def
          execute_special_leaf execvp_def first_token_def)
qed

lemma semicolon_behind_pipe_waits_for_any_child:
  "execute_special 2 null_stack [''true'', ''|'', ''sleep'', ''5'', '';'', ''echo'', ''hi''] =
     Fork
       (Pipe
         (Fork
           (Close ReadEnd (Close (Fd 1) (Dup WriteEnd
              (Execvp (Some ''true'') [''true''] (Printf ''Invalid input.\<newline>'' (Exit 0))))))
           (Close WriteEnd (Close (Fd 0) (Dup ReadEnd
              (Fork
                (Execvp (Some ''sleep'') [''sleep'', ''5'']
                   (Printf ''Invalid input.\<newline>'' (Exit 0)))
                (Wait
                  (Fork
                    (Execvp (Some ''echo'') [''echo'', ''hi'']
                       (Printf ''Invalid input.\<newline>'' (Exit 0)))
                    (Wait (Wait (Return ())))))))))))
       (Wait (Return ()))
   \<and> pending_at_wait 0
         (execute_special 2 null_stack
            [''true'', ''|'', ''sleep'', ''5'', '';'', ''echo'', ''hi'']) = {1, 2}"
proof -
  have p: "split ''|'' ([''true''] @ ''|'' # [''sleep'', ''5'', '';'', ''echo'', ''hi''])
          (local_array (fst (null_stack []))) (local_array (snd (null_stack []))) =
     Inr (map Some [''true''] @ drop (length [''true'']) (local_array (fst (null_stack []))),
          map Some [''sleep'', ''5'', '';'', ''echo'', ''hi'']
            @ drop (length [''sleep'', ''5'', '';'', ''echo'', ''hi''])
                (local_array (snd (null_stack []))))"
    by (rule split_at) (simp_all add: MAX_CHAR_def)
  have s: "split '';'' ([''sleep'', ''5''] @ '';'' # [''echo'', ''hi''])
          (local_array (fst (null_stack []))) (local_array (snd (null_stack []))) =
     Inr (map Some [''sleep'', ''5'']
            @ drop (length [''sleep'', ''5'']) (local_array (fst (null_stack []))),
          map Some [''echo'', ''hi'']
            @ drop (length [''echo'', ''hi'']) (local_array (snd (null_stack []))))"
    by (rule split_at) (simp_all add: MAX_CHAR_def)
  have a: "execute_special_slots 2 null_stack (map Some [''true''] @ replicate 255 None) =
           execute_special 1 null_stack [''true'']"
    using execute_special_slots_filled[of 255 1 null_stack "[''true'']"] by (simp add: numeral_2_eq_2)
  have b: "execute_special_slots 2 null_stack
             (map Some [''sleep'', ''5'', '';'', ''echo'', ''hi''] @ replicate 251 None) =
           execute_special 1 null_stack [''sleep'', ''5'', '';'', ''echo'', ''hi'']"
    using execute_special_slots_filled[of 251 1 null_stack
        "[''sleep'', ''5'', '';'', ''echo'', ''hi'']"] by (simp add: numeral_2_eq_2)
  have l: "execute_special_slots 1 null_stack
             (map Some [''sleep'', ''5''] @ replicate 254 None) =
           execute_special 0 null_stack [''sleep'', ''5'']"
    using execute_special_slots_filled[of 254 0 null_stack "[''sleep'', ''5'']"] by simp
  have r: "execute_special_slots 1 null_stack
             (map Some [''echo'', ''hi''] @ replicate 254 None) =
           execute_special 0 null_stack [''echo'', ''hi'']"
    using execute_special_slots_filled[of 254 0 null_stack "[''echo'', ''hi'']"] by simp
  have right: "execute_special 1 null_stack [''sleep'', ''5'', '';'', ''echo'', ''hi''] =
     Fork
       (Execvp (Some ''sleep'') [''sleep'', ''5''] (Printf ''Invalid input.\<newline>'' (Exit 0)))
       (Wait
         (Fork
           (Execvp (Some ''echo'') [''echo'', ''hi''] (Printf ''Invalid input.\<newline>'' (Exit 0)))
           (Wait (Return ()))))"
    using s l r
    by (subst execute_special.simps)
       (simp add: handle_semicolon.simps null_stack_arrays descend_null_stack MAX_CHAR_def
          execute_special_leaf execvp_def first_token_def)
  have left: "execute_special 1 null_stack [''true''] =
     Execvp (Some ''true'') [''true''] (Printf ''Invalid input.\<newline>'' (Exit 0))"
    by (simp add: execute_special_leaf execvp_def first_token_def)
  have t: "execute_special 2 null_stack
             [''true'', ''|'', ''sleep'', ''5'', '';'', ''echo'', ''hi''] =
     Fork
       (Pipe
         (Fork
           (Close ReadEnd (Close (Fd 1) (Dup WriteEnd
              (Execvp (Some ''true'') [''true''] (Printf ''Invalid input.\<newline>'' (Exit 0))))))
           (Close WriteEnd (Close (Fd 0) (Dup ReadEnd
              (Fork
                (Execvp (Some ''sleep'') [''sleep'', ''5'']
                   (Printf ''Invalid input.\<newline>'' (Exit 0)))
                (Wait
                  (Fork
                    (Execvp (Some ''echo'') [''echo'', ''hi'']
                       (Printf ''Invalid input.\<newline>'' (Exit 0)))
                    (Wait (Wait (Return ())))))))))))
       (Wait (Return ()))"
    using p a b left right
    by (subst execute_special.simps)
       (simp add: custom_pipe.simps null_stack_arrays descend_null_stack MAX_CHAR_def)
  show ?thesis
    by (simp only: t) auto
qed

text \<open>
  C10. \<^verbatim>\<open>handle_specials_exec\<close> does what \<^verbatim>\<open>execute_special\<close> does on every token
  sequence: when the first operator is a pipe, \<^verbatim>\<open>execute_special\<close> itself calls
  \<^verbatim>\<open>custom_pipe\<close>, so the count of pipes changes nothing. In both branches the arrays
  that \<^verbatim>\<open>split\<close> writes to are those of \<^verbatim>\<open>custom_pipe\<close>; the equality is for the same
  contents of these arrays.
\<close>

theorem handle_specials_exec_eq_execute_special:
  "handle_specials_exec depth stale tokens = execute_special depth stale tokens"
  by (simp add: handle_specials_exec_def execute_special.simps)


subsection \<open>Dispatcher\<close>

lemma returns_bind: "returns (bind m k) = (\<Union>x\<in>returns m. returns (k x))"
  by (induction m) auto

lemma own_returns_bind: "own_returns (bind m k) = (\<Union>x\<in>own_returns m. own_returns (k x))"
  by (induction m) auto

lemma update_prev_tokens_full:
  "length commands = MAX_CHAR \<Longrightarrow> length prev_tokens = MAX_CHAR \<Longrightarrow>
   update_prev_tokens commands prev_tokens = Some commands"
  by (simp add: update_prev_tokens_def)

lemma replicate_update_same: "(replicate n x)[i := x] = replicate n x"
  by (induction n arbitrary: i) (auto split: nat.splits)

lemma length_line_buffer: "length s \<le> MAX_CHAR \<Longrightarrow> length (line_buffer s) = MAX_CHAR"
  by (simp add: line_buffer_def)

text \<open>Evaluation of the dispatcher on concrete lines.\<close>

lemmas dispatcher_defs =
  execute.simps handle_prev.simps size_tokens_def first_token_def tokenize_elements_def
  strcspn_newline_def cstring_def line_buffer_def zeroed_def update_prev_tokens_def
  NEWLINE_def replicate_update_same

text \<open>
  C3. The claim: \<^verbatim>\<open>prev\<close> prints the stored line and executes it again when a line has
  been stored, and prints and executes nothing otherwise. \<^verbatim>\<open>handle_prev\<close> calls
  \<^verbatim>\<open>execute\<close> only under \<^verbatim>\<open>strlen(prev_tokens) == 0\<close>: with the stored line \<^verbatim>\<open>ls\<close> it
  prints the line and returns, no process created; with an empty stored line it prints
  an empty line.
\<close>

theorem prev_prints_without_executing:
  "execute depth fs stale [''prev''] commands (line_buffer ''ls'')
     = Printf ''ls\<newline>'' (Return (0, line_buffer ''ls''))
   \<and> execute depth fs stale [''prev''] commands zeroed
     = Printf ''\<newline>'' (Return (0, zeroed))"
  by (simp add: dispatcher_defs tokenizer_defs)

text \<open>
  The calling process returns from the resolution of a sequence with an operator,
  whatever the arrays hold and whatever becomes of the children.
\<close>

lemma own_returns_handle_semicolon:
  assumes "'';'' \<in> set tokens" and "length tokens \<le> MAX_CHAR"
  shows "own_returns (handle_semicolon depth stale tokens (local_array l0) (local_array r0))
           = {()}"
  using split_succeeds[OF assms, of l0 r0]
  by (auto simp: handle_semicolon.simps)

lemma own_returns_handle_input_redirection:
  assumes "''<'' \<in> set tokens" and "length tokens \<le> MAX_CHAR"
  shows "own_returns (handle_input_redirection tokens (local_array l0) (local_array r0)) = {()}"
  using split_succeeds[OF assms, of l0 r0]
  by (auto simp: handle_input_redirection_def)

lemma own_returns_handle_output_redirection:
  assumes "''>'' \<in> set tokens" and "length tokens \<le> MAX_CHAR"
  shows "own_returns (handle_output_redirection tokens (local_array l0) (local_array r0)) = {()}"
  using split_succeeds[OF assms, of l0 r0]
  by (auto simp: handle_output_redirection_def)

lemma own_returns_custom_pipe:
  assumes "''|'' \<in> set tokens" and "length tokens \<le> MAX_CHAR"
  shows "own_returns (custom_pipe depth stale tokens) = {()}"
  using split_succeeds[OF assms, of "fst (stale [])" "snd (stale [])"]
  by (auto simp: custom_pipe.simps)

lemma own_returns_execute_special:
  assumes "0 < has_special tokens" and "length tokens < MAX_CHAR"
  shows "own_returns (execute_special depth stale tokens) = {()}"
proof -
  from assms(2) have le: "length tokens \<le> MAX_CHAR" by simp
  from assms(1) has_special_range[of tokens]
  consider "has_special tokens = 1" | "has_special tokens = 2" | "has_special tokens = 3"
    | "has_special tokens = 4" by arith
  then show ?thesis
  proof cases
    case 1
    with has_special_decompose[of tokens "'';''"] have "'';'' \<in> set tokens" by simp
    from own_returns_handle_semicolon[OF this le] 1 show ?thesis
      by (subst execute_special.simps) simp
  next
    case 2
    with has_special_decompose[of tokens "''<''"] have "''<'' \<in> set tokens" by simp
    from own_returns_handle_input_redirection[OF this le] 2 show ?thesis
      by (subst execute_special.simps) simp
  next
    case 3
    with has_special_decompose[of tokens "''>''"] have "''>'' \<in> set tokens" by simp
    from own_returns_handle_output_redirection[OF this le] 3 show ?thesis
      by (subst execute_special.simps) simp
  next
    case 4
    with has_special_decompose[of tokens "''|''"] have "''|'' \<in> set tokens" by simp
    from own_returns_custom_pipe[OF this le] 4 show ?thesis
      by (subst execute_special.simps) simp
  qed
qed

lemma execute_special_pipe:
  "has_special tokens = 4 \<Longrightarrow>
   execute_special depth stale tokens = custom_pipe depth stale tokens"
  by (subst execute_special.simps) simp

lemma own_returns_handle_specials_exec:
  assumes "0 < has_special tokens" and "length tokens < MAX_CHAR"
  shows "own_returns (handle_specials_exec depth stale tokens) = {()}"
proof (cases "has_special tokens = 4 \<and> \<not> num_pipes tokens > 1")
  case True
  then have "handle_specials_exec depth stale tokens = custom_pipe depth stale tokens"
    by (simp add: handle_specials_exec_def)
  also have "\<dots> = execute_special depth stale tokens"
    using True by (simp only: execute_special_pipe)
  finally show ?thesis
    by (simp only: own_returns_execute_special[OF assms])
next
  case False
  then have "handle_specials_exec depth stale tokens = execute_special depth stale tokens"
    by (auto simp: handle_specials_exec_def)
  then show ?thesis
    by (simp only: own_returns_execute_special[OF assms])
qed

lemma returns_raise_error: "returns (raise_error e) = {}"
  by (cases e) (simp_all add: raise_error_def)

lemma execute_exit:
  "first_token tokens = Some ''exit'' \<Longrightarrow>
   execute depth fs stale tokens commands prev_tokens = Return (1, prev_tokens)"
  by (subst execute.simps) (auto simp: size_tokens_def first_token_def split: list.splits)

lemma execute_empty:
  "execute depth fs stale [] commands prev_tokens = Return (0, prev_tokens)"
  by (subst execute.simps) (simp add: size_tokens_def)

lemma returns_execute_code:
  assumes "first_token tokens \<noteq> Some ''exit''"
  shows "\<forall>r\<in>returns (execute depth fs stale tokens commands prev_tokens). fst r = 0"
  using assms
  by (subst execute.simps) (auto simp: returns_bind split: option.splits)

text \<open>A buffer whose C string holds no newline is left as it is by \<^verbatim>\<open>tokenize_elements\<close>.\<close>

lemma strcspn_newline_cstring:
  assumes "NEWLINE \<notin> set (cstring buf)"
  shows "strcspn_newline buf = length (cstring buf)"
proof -
  have "takeWhile (\<lambda>c. c \<noteq> NEWLINE \<and> c \<noteq> NUL) buf = takeWhile (\<lambda>c. c \<noteq> NUL) buf"
    using assms unfolding cstring_def
  proof (induction buf)
    case Nil
    show ?case by simp
  next
    case (Cons c buf)
    then show ?case by (cases "c = NUL") auto
  qed
  then show ?thesis by (simp add: strcspn_newline_def cstring_def)
qed

lemma tokenize_elements_keeps:
  assumes "NEWLINE \<notin> set (cstring buf)" and "tokenize_elements buf = Inr (buf', toks)"
  shows "buf' = buf"
proof -
  let ?n = "strcspn_newline buf"
  from assms(2) have n: "?n < length buf" and b: "buf' = buf[?n := NUL]"
    by (auto simp: tokenize_elements_def split: if_splits sum.splits)
  have "?n = length (takeWhile (\<lambda>c. c \<noteq> NUL) buf)"
    using strcspn_newline_cstring[OF assms(1)] by (simp add: cstring_def)
  with n have "buf ! ?n = NUL"
    using nth_length_takeWhile[of "\<lambda>c. c \<noteq> NUL" buf] by simp
  with b show ?thesis by (simp add: list_update_same_conv n)
qed

lemma returns_handle_prev:
  assumes "NEWLINE \<notin> set (cstring prev_tokens)"
  shows "returns (handle_prev depth fs stale tokens prev_tokens) \<subseteq> {prev_tokens}"
proof (cases "tokenize_elements prev_tokens")
  case (Inl e)
  then show ?thesis
    by (subst handle_prev.simps) (simp add: returns_raise_error)
next
  case (Inr p)
  obtain prev' old_tokens where p: "p = (prev', old_tokens)" by (cases p)
  from tokenize_elements_keeps[OF assms Inr[unfolded p]] have k: "prev' = prev_tokens" .
  have e: "cstring prev_tokens = [] \<Longrightarrow> old_tokens = []"
    using tokenize_elements_empty[OF Inr[unfolded p]] k by simp
  show ?thesis
    using Inr p k e
    by (subst handle_prev.simps) (auto simp: returns_bind execute_empty)
qed

lemma execvp_no_return: "returns (execvp name argv (Printf str (Exit n))) = {}"
  by (cases name) (simp_all add: execvp_def)

lemma returns_no_dir:
  "length str = MAX_CHAR \<Longrightarrow> length prev_tokens = MAX_CHAR \<Longrightarrow>
   returns (no_dir tokens str prev_tokens) = {str}"
  by (simp add: no_dir_def update_prev_tokens_full execvp_no_return)

lemma own_returns_no_dir:
  "length str = MAX_CHAR \<Longrightarrow> length prev_tokens = MAX_CHAR \<Longrightarrow>
   own_returns (no_dir tokens str prev_tokens) = {str}"
  by (simp add: no_dir_def update_prev_tokens_full)

lemma own_returns_handle_cd: "own_returns (handle_cd n tokens) = {()}"
  by (simp add: handle_cd_def)

lemma own_returns_handle_help: "own_returns handle_help = {()}"
  by (simp add: handle_help_def)

lemma returns_execute_slot:
  assumes "length commands = MAX_CHAR" and "length prev_tokens = MAX_CHAR"
    and "NEWLINE \<notin> set (cstring prev_tokens)"
  shows "\<forall>r\<in>returns (execute depth fs stale tokens commands prev_tokens).
           snd r = (if tokens \<noteq> [] \<and> first_token tokens \<noteq> Some ''exit''
                       \<and> (0 < has_special tokens \<or> first_token tokens \<noteq> Some ''prev'')
                    then commands else prev_tokens)"
  using assms returns_handle_prev[OF assms(3), of depth fs stale tokens]
  by (subst execute.simps)
     (auto simp: returns_bind update_prev_tokens_full returns_no_dir size_tokens_def
        first_token_def split: list.splits)

lemma own_returns_execute_recorded:
  assumes "length commands = MAX_CHAR" and "length prev_tokens = MAX_CHAR"
    and "tokens \<noteq> []" and "length tokens < MAX_CHAR"
    and "first_token tokens \<noteq> Some ''exit''"
    and "0 < has_special tokens
         \<or> first_token tokens \<noteq> Some ''prev'' \<and> first_token tokens \<noteq> Some ''source''"
  shows "own_returns (execute depth fs stale tokens commands prev_tokens) = {(0, commands)}"
  using assms own_returns_handle_specials_exec[of tokens depth stale]
  by (subst execute.simps)
     (auto simp: own_returns_bind update_prev_tokens_full own_returns_no_dir size_tokens_def
        own_returns_handle_cd own_returns_handle_help)

lemma execute_ls_exit:
  "execute (Suc depth) fs null_stack [''ls'', '';'', ''exit''] (line_buffer ''ls ; exit'') zeroed =
     Fork
       (Execvp (Some ''ls'') [''ls''] (Printf ''Invalid input.\<newline>'' (Exit 0)))
       (Wait
         (Fork
           (Execvp (Some ''exit'') [''exit''] (Printf ''Invalid input.\<newline>'' (Exit 0)))
           (Wait (Return (0, line_buffer ''ls ; exit'')))))"
proof -
  have s: "split '';'' ([''ls''] @ '';'' # [''exit''])
          (local_array (fst (null_stack []))) (local_array (snd (null_stack []))) =
     Inr (map Some [''ls''] @ drop (length [''ls'']) (local_array (fst (null_stack []))),
          map Some [''exit''] @ drop (length [''exit'']) (local_array (snd (null_stack []))))"
    by (rule split_at) (simp_all add: MAX_CHAR_def)
  have l: "execute_special_slots (Suc depth) null_stack (map Some [''ls''] @ replicate 255 None) =
           execute_special depth null_stack [''ls'']"
    by (rule execute_special_slots_filled) simp
  have r: "execute_special_slots (Suc depth) null_stack
             (map Some [''exit''] @ replicate 255 None) =
           execute_special depth null_stack [''exit'']"
    by (rule execute_special_slots_filled) simp
  have e: "execute_special (Suc depth) null_stack [''ls'', '';'', ''exit''] =
     Fork
       (Execvp (Some ''ls'') [''ls''] (Printf ''Invalid input.\<newline>'' (Exit 0)))
       (Wait
         (Fork
           (Execvp (Some ''exit'') [''exit''] (Printf ''Invalid input.\<newline>'' (Exit 0)))
           (Wait (Return ()))))"
    using s l r
    by (subst execute_special.simps)
       (simp add: handle_semicolon.simps null_stack_arrays descend_null_stack MAX_CHAR_def
          execute_special_leaf execvp_def first_token_def)
  have u: "update_prev_tokens (line_buffer ''ls ; exit'') zeroed = Some (line_buffer ''ls ; exit'')"
    by (rule update_prev_tokens_full) (simp_all add: line_buffer_def zeroed_def MAX_CHAR_def)
  show ?thesis
    by (subst execute.simps)
       (simp add: u e handle_specials_exec_def size_tokens_def first_token_def)
qed

lemma line_buffer_facts:
  "length (line_buffer ''cd /tmp'') = MAX_CHAR"
  "length (line_buffer ''prev'') = MAX_CHAR"
  "length zeroed = MAX_CHAR"
  "NEWLINE \<notin> set (cstring zeroed)"
  "NEWLINE \<notin> set (cstring (line_buffer ''cd /tmp''))"
  by (simp_all add: line_buffer_def zeroed_def MAX_CHAR_def cstring_def NEWLINE_def NUL_def)

text \<open>
  \<^verbatim>\<open>prev\<close> on a slot that holds a line: the line is printed and, when it can be tokenized,
  the dispatcher returns with the slot as it was. Nothing is executed.
\<close>

lemma prev_on_recorded_line:
  assumes "cstring prev_tokens \<noteq> []" and "NEWLINE \<notin> set (cstring prev_tokens)"
    and "NUL \<in> set prev_tokens"
  shows "execute depth fs stale [''prev''] commands prev_tokens =
     Printf (cstring prev_tokens @ ''\<newline>'')
       (case tokenize_elements prev_tokens of
          Inl e \<Rightarrow> raise_error e
        | Inr p \<Rightarrow> Return (0, prev_tokens))"
proof (cases "tokenize_elements prev_tokens")
  case (Inl e)
  then show ?thesis
    using assms(3)
    by (cases e)
       (simp_all add: execute.simps handle_prev.simps size_tokens_def first_token_def
          raise_error_def)
next
  case (Inr p)
  obtain prev' old_tokens where p: "p = (prev', old_tokens)" by (cases p)
  from tokenize_elements_keeps[OF assms(2) Inr[unfolded p]] have "prev' = prev_tokens" .
  with Inr p assms(1,3) show ?thesis
    by (simp add: execute.simps handle_prev.simps size_tokens_def first_token_def)
qed

text \<open>
  C7, as amended. \<^verbatim>\<open>execute\<close> returns 1 exactly when the first token of the sequence it is
  handed is \<^verbatim>\<open>exit\<close>; for every other sequence it returns 0 in every process in which it
  returns. \<^verbatim>\<open>execute_special\<close> returns no outcome: a sub-sequence without operator that
  begins with \<^verbatim>\<open>exit\<close> is passed to \<^verbatim>\<open>execvp\<close> as the name of a program, and the process
  that fails to run it exits.
\<close>

theorem exit_only_as_first_token:
  "(first_token tokens = Some ''exit'' \<longrightarrow>
      execute depth fs stale tokens commands prev_tokens = Return (1, prev_tokens))
   \<and> (first_token tokens \<noteq> Some ''exit'' \<longrightarrow>
      (\<forall>r\<in>returns (execute depth fs stale tokens commands prev_tokens). fst r = 0))
   \<and> (has_special (''exit'' # args) = 0 \<longrightarrow>
      execute_special depth stale (''exit'' # args) =
        Execvp (Some ''exit'') (''exit'' # args) (Printf ''Invalid input.\<newline>'' (Exit 0)))"
  using execute_exit[of tokens depth fs stale commands prev_tokens]
    returns_execute_code[of tokens depth fs stale commands prev_tokens]
    execute_special_leaf[of "''exit'' # args" depth stale]
  by (simp add: first_token_def execvp_def)

text \<open>The theorem at \<^verbatim>\<open>exit\<close>, at \<^verbatim>\<open>ls ; exit\<close> and at the sub-sequence \<^verbatim>\<open>exit\<close>.\<close>

theorem exit_only_as_first_token_witness:
  "first_token [''exit''] = Some ''exit''
   \<and> execute 1 no_files null_stack [''exit''] (line_buffer ''exit'') zeroed = Return (1, zeroed)
   \<and> first_token [''ls'', '';'', ''exit''] \<noteq> Some ''exit''
   \<and> (0, line_buffer ''ls ; exit'')
        \<in> returns (execute 1 no_files null_stack [''ls'', '';'', ''exit'']
                     (line_buffer ''ls ; exit'') zeroed)
   \<and> fst (0 :: int, line_buffer ''ls ; exit'') = 0
   \<and> has_special [''exit''] = 0
   \<and> execute_special 1 null_stack [''exit''] =
        Execvp (Some ''exit'') [''exit''] (Printf ''Invalid input.\<newline>'' (Exit 0))"
  using exit_only_as_first_token[of "[''exit'']" 1 no_files null_stack
      "line_buffer ''exit''" zeroed "[]"]
    exit_only_as_first_token[of "[''ls'', '';'', ''exit'']" 1 no_files null_stack
      "line_buffer ''ls ; exit''" zeroed "[]"]
    execute_ls_exit[of 0 no_files]
  by (simp add: first_token_def)

text \<open>
  C7 as stated fails: for \<^verbatim>\<open>ls ; exit\<close> the right side is run as a program in the second
  child, and the dispatcher returns 0 to the loop of the session.
\<close>

theorem nested_exit_is_executed_as_program:
  "execute 1 no_files null_stack [''ls'', '';'', ''exit''] (line_buffer ''ls ; exit'') zeroed =
     Fork
       (Execvp (Some ''ls'') [''ls''] (Printf ''Invalid input.\<newline>'' (Exit 0)))
       (Wait
         (Fork
           (Execvp (Some ''exit'') [''exit''] (Printf ''Invalid input.\<newline>'' (Exit 0)))
           (Wait (Return (0, line_buffer ''ls ; exit'')))))"
  using execute_ls_exit[of 0 no_files] by simp

text \<open>
  C9, as amended. For buffers of \<open>MAX_CHAR\<close> bytes and a slot whose line holds no newline
  (as every recorded line), the slot holds the raw line after the dispatch of a non-empty
  sequence whose first token is not \<^verbatim>\<open>exit\<close> and that holds an operator or does not begin
  with \<^verbatim>\<open>prev\<close>; it is unchanged after \<^verbatim>\<open>exit\<close>, after \<^verbatim>\<open>prev\<close> without operator and
  after an empty sequence. Apart from \<^verbatim>\<open>source\<close>, whose return depends on the file, the
  calling process does return, with 0 and the recorded line.
\<close>

theorem previous_line_recording:
  assumes "length commands = MAX_CHAR" and "length prev_tokens = MAX_CHAR"
    and "NEWLINE \<notin> set (cstring prev_tokens)"
  shows "(\<forall>r\<in>returns (execute depth fs stale tokens commands prev_tokens).
            snd r = (if tokens \<noteq> [] \<and> first_token tokens \<noteq> Some ''exit''
                        \<and> (0 < has_special tokens \<or> first_token tokens \<noteq> Some ''prev'')
                     then commands else prev_tokens))
     \<and> (tokens \<noteq> [] \<and> length tokens < MAX_CHAR \<and> first_token tokens \<noteq> Some ''exit''
          \<and> (0 < has_special tokens
               \<or> first_token tokens \<noteq> Some ''prev'' \<and> first_token tokens \<noteq> Some ''source'')
         \<longrightarrow> own_returns (execute depth fs stale tokens commands prev_tokens) = {(0, commands)})"
  using returns_execute_slot[OF assms, of depth fs stale tokens]
    own_returns_execute_recorded[OF assms(1,2), of tokens depth fs stale]
  by blast

text \<open>The theorem at \<^verbatim>\<open>cd /tmp\<close> on an empty slot, and at \<^verbatim>\<open>prev\<close> after it.\<close>

theorem previous_line_recording_witness:
  "length (line_buffer ''cd /tmp'') = MAX_CHAR \<and> length zeroed = MAX_CHAR
   \<and> NEWLINE \<notin> set (cstring zeroed)
   \<and> execute 0 no_files null_stack [''cd'', ''/tmp''] (line_buffer ''cd /tmp'') zeroed =
        Chdir (Some ''/tmp'')
          (Printf ''-shell: cd: given directory does not exist\<newline>''
             (Return (0, line_buffer ''cd /tmp'')))
          (Return (0, line_buffer ''cd /tmp''))
   \<and> own_returns (execute 0 no_files null_stack [''cd'', ''/tmp''] (line_buffer ''cd /tmp'')
        zeroed)
        = {(0, line_buffer ''cd /tmp'')}
   \<and> NEWLINE \<notin> set (cstring (line_buffer ''cd /tmp''))
   \<and> execute 0 no_files null_stack [''prev''] (line_buffer ''prev'') (line_buffer ''cd /tmp'') =
        Printf ''cd /tmp\<newline>'' (Return (0, line_buffer ''cd /tmp''))"
proof -
  have cd: "execute 0 no_files null_stack [''cd'', ''/tmp''] (line_buffer ''cd /tmp'') zeroed =
        Chdir (Some ''/tmp'')
          (Printf ''-shell: cd: given directory does not exist\<newline>''
             (Return (0, line_buffer ''cd /tmp'')))
          (Return (0, line_buffer ''cd /tmp''))"
    by (subst execute.simps)
       (simp add: update_prev_tokens_full line_buffer_facts size_tokens_def first_token_def
          handle_cd_def token_at_def)
  have pv: "execute 0 no_files null_stack [''prev''] (line_buffer ''prev'')
              (line_buffer ''cd /tmp'') =
        Printf ''cd /tmp\<newline>'' (Return (0, line_buffer ''cd /tmp''))"
    by (simp add: dispatcher_defs tokenizer_defs)
  show ?thesis
    using previous_line_recording[OF line_buffer_facts(1,3,4), of 0 no_files null_stack
        "[''cd'', ''/tmp'']"]
      previous_line_recording[OF line_buffer_facts(2,1,5), of 0 no_files null_stack "[''prev'']"]
      cd pv line_buffer_facts
    by (simp add: first_token_def MAX_CHAR_def)
qed

text \<open>
  C9 as stated fails: the dispatch of \<^verbatim>\<open>exit\<close> leaves the slot as it was.
\<close>

theorem exit_does_not_record:
  "execute 0 no_files null_stack [''exit''] (line_buffer ''exit'') (line_buffer ''ls'')
     = Return (1, line_buffer ''ls'')
   \<and> line_buffer ''ls'' \<noteq> line_buffer ''exit''"
  by (simp add: execute_exit first_token_def line_buffer_def)


end
